theory Spec2Isabelle
  imports Complex_Main "HOL-Library.Multiset"
begin

section \<open>A vantage-point tree: the model of vptree.hpp\<close>

text \<open>
  The theory embeds the class templates \<open>VpTree\<close> and \<open>Searcher\<close> of
  \<^verbatim>\<open>src/vptree.hpp\<close>.

  \<^item> \<open>double\<close> is modelled by \<open>real\<close>: distances are exact reals, a metric never yields a
    NaN, and \<open>std::numeric_limits<double>::max()\<close> is the real number \<open>DBL_MAX\<close>.
  \<^item> \<open>int\<close> is modelled by \<open>int\<close>; the places where the 32-bit arithmetic of the code can
    overflow (\<open>++i\<close> in \<open>makeItems\<close>, \<open>upper + lower\<close> in \<open>makeTree\<close>) are checked and
    yield the error \<open>SignedOverflow\<close>.
  \<^item> Undefined behaviour of the C++ library is an error value: reading a vector out of
    range is \<open>OutOfBounds\<close>, \<open>pop\<close> on an empty priority queue is \<open>PopEmptyHeap\<close>.
  \<^item> The metric is the template parameter \<open>Metric\<close>: a function \<open>'a \<Rightarrow> 'a \<Rightarrow> real\<close>.
  \<^item> The library routines \<open>std::nth_element\<close> and \<open>std::uniform_int_distribution\<close> (with
    the generator \<open>std::mt19937\<close>, whose state has the type \<open>'g\<close>) are parameters of the
    builder; the theorems assume the contract the C++ standard gives them, and hold
    for every arrangement and every draw that the contract allows.
  \<^item> \<open>std::priority_queue\<close> is a list kept in ascending order of \<open>dist\<close>.
  \<^item> The recursion of \<open>searchInNode\<close> follows indices stored in a vector; the model
    bounds its depth by a number \<open>fuel\<close>, and the theorems show that a budget of the
    number of items suffices on every constructed tree.
\<close>

subsection \<open>Errors, constants and checked vector access\<close>

datatype error = OutOfBounds | PopEmptyHeap | SignedOverflow

definition INT_MAX :: int where
  "INT_MAX = 2147483647"

text \<open>\<open>std::numeric_limits<double>::max()\<close>, that is \<open>(2 - 2\<^sup>-\<^sup>5\<^sup>2) * 2\<^sup>1\<^sup>0\<^sup>2\<^sup>3\<close>.\<close>

definition DBL_MAX :: real where
  "DBL_MAX = (2 ^ 53 - 1) * 2 ^ 971"

text \<open>\<open>v[i]\<close> on a \<open>std::vector\<close>: undefined outside \<open>0 \<le> i < v.size()\<close>.\<close>

definition in_bounds :: "'x list \<Rightarrow> int \<Rightarrow> bool" where
  "in_bounds v i = (0 \<le> i \<and> i < int (length v))"

definition vec_at :: "'x list \<Rightarrow> int \<Rightarrow> error + 'x" where
  "vec_at v i = (if in_bounds v i then Inr (v ! nat i) else Inl OutOfBounds)"

subsection \<open>The data model\<close>

text \<open>\<open>Node::Leaf\<close>.\<close>

definition Leaf :: int where
  "Leaf = - 1"

record Node =
  item :: int
  threshold :: real
  left :: int
  right :: int

text \<open>The constructor \<open>Node(item)\<close> with its default arguments.\<close>

definition Node_ctor :: "int \<Rightarrow> Node" where
  "Node_ctor i = \<lparr>item = i, threshold = 0, left = Leaf, right = Leaf\<rparr>"

text \<open>
  The members of \<open>VpTree\<close>. The trailing underscore of the member names \<open>items_\<close>,
  \<open>nodes_\<close>, \<open>rng_\<close>, \<open>tau_\<close> and \<open>heap_\<close> is dropped. An element of \<open>items\<close> is the
  \<open>ItemType\<close> pair of the item and its original index.
\<close>

record ('a, 'g) VpTree =
  getDistance :: "'a \<Rightarrow> 'a \<Rightarrow> real"
  items :: "('a \<times> int) list"
  nodes :: "Node list"
  rng :: 'g

subsection \<open>Construction\<close>

text \<open>
  \<open>makeItems\<close>: the loop pairs every input item with its position \<open>i\<close> and increments
  \<open>i\<close>, which overflows when \<open>i\<close> is \<open>INT_MAX\<close>.
\<close>

fun makeItems_loop :: "int \<Rightarrow> 'a list \<Rightarrow> ('a \<times> int) list \<Rightarrow> error + ('a \<times> int) list" where
  "makeItems_loop i [] res = Inr res"
| "makeItems_loop i (x # xs) res =
     (if i = INT_MAX then Inl SignedOverflow
      else makeItems_loop (i + 1) xs (res @ [(x, i)]))"

definition makeItems :: "'a list \<Rightarrow> error + ('a \<times> int) list" where
  "makeItems xs = makeItems_loop 0 xs []"

text \<open>\<open>makeNode\<close>: \<open>push_back\<close> and the index of the new node.\<close>

definition makeNode :: "int \<Rightarrow> ('a, 'g) VpTree \<Rightarrow> int \<times> ('a, 'g) VpTree" where
  "makeNode i s =
     (let s' = s\<lparr>nodes := nodes s @ [Node_ctor i]\<rparr>
      in (int (length (nodes s')) - 1, s'))"

text \<open>
  \<open>selectRoot\<close>: \<open>uni lower (upper - 1)\<close> is the draw of
  \<open>std::uniform_int_distribution<int>(lower, upper - 1)\<close> from the generator; it returns
  the drawn index and the generator's next state. Then \<open>std::swap\<close> of the two items.
\<close>

definition selectRoot ::
  "(int \<Rightarrow> int \<Rightarrow> 'g \<Rightarrow> int \<times> 'g) \<Rightarrow> int \<Rightarrow> int \<Rightarrow> ('a, 'g) VpTree \<Rightarrow> error + ('a, 'g) VpTree" where
  "selectRoot uni lower upper s =
     (case uni lower (upper - 1) (rng s) of (rt, g) \<Rightarrow>
        if in_bounds (items s) lower \<and> in_bounds (items s) rt
        then Inr (s\<lparr>rng := g,
                    items := (items s)[nat lower := items s ! nat rt,
                                         nat rt := items s ! nat lower]\<rparr>)
        else Inl OutOfBounds)"

text \<open>
  \<open>partitionByDistance\<close>: \<open>nth_element cmp k xs\<close> is the result of \<open>std::nth_element\<close> on a
  range holding \<open>xs\<close>, with \<open>nth\<close> at offset \<open>k\<close> from \<open>first\<close> and the comparison \<open>cmp\<close>.
  The iterators must satisfy \<open>begin \<le> first \<le> nth \<le> last \<le> end\<close>. The comparison is the
  lambda of the source; it reads \<open>items[lower]\<close>, which lies outside the range.
\<close>

definition partitionByDistance ::
  "((('a \<times> int) \<Rightarrow> ('a \<times> int) \<Rightarrow> bool) \<Rightarrow> nat \<Rightarrow> ('a \<times> int) list \<Rightarrow> ('a \<times> int) list) \<Rightarrow>
   int \<Rightarrow> int \<Rightarrow> int \<Rightarrow> ('a, 'g) VpTree \<Rightarrow> error + ('a, 'g) VpTree" where
  "partitionByDistance nth_element lower pos upper s =
     (if 0 \<le> lower \<and> lower + 1 \<le> pos \<and> pos \<le> upper \<and> upper \<le> int (length (items s))
      then
        let first = nat (lower + 1);
            last = nat upper;
            cmp = (\<lambda>i1 i2. getDistance s (fst (items s ! nat lower)) (fst i1)
                          < getDistance s (fst (items s ! nat lower)) (fst i2))
        in Inr (s\<lparr>items := take first (items s)
                    @ nth_element cmp (nat pos - first) (take (last - first) (drop first (items s)))
                    @ drop last (items s)\<rparr>)
      else Inl OutOfBounds)"

text \<open>
  \<open>makeTree\<close>. After \<open>selectRoot\<close> has read \<open>items[lower]\<close>, \<open>lower\<close> and \<open>upper\<close> are not
  negative, so the truncating division of C++ is \<open>div\<close>. The accesses \<open>items[lower]\<close>,
  \<open>items[median]\<close> and \<open>nodes[node]\<close> that follow are inside the bounds that
  \<open>partitionByDistance\<close> and \<open>makeNode\<close> have established.
\<close>

function makeTree ::
  "((('a \<times> int) \<Rightarrow> ('a \<times> int) \<Rightarrow> bool) \<Rightarrow> nat \<Rightarrow> ('a \<times> int) list \<Rightarrow> ('a \<times> int) list) \<Rightarrow>
   (int \<Rightarrow> int \<Rightarrow> 'g \<Rightarrow> int \<times> 'g) \<Rightarrow>
   int \<Rightarrow> int \<Rightarrow> ('a, 'g) VpTree \<Rightarrow> error + (int \<times> ('a, 'g) VpTree)" where
  "makeTree nth_element uni lower upper s =
     (if lower \<ge> upper then Inr (Leaf, s)
      else if lower + 1 = upper then Inr (makeNode lower s)
      else
        (case selectRoot uni lower upper s of
           Inl e \<Rightarrow> Inl e
         | Inr s1 \<Rightarrow>
            if upper + lower > INT_MAX then Inl SignedOverflow
            else
              (let median = (upper + lower) div 2 in
               (case partitionByDistance nth_element lower median upper s1 of
                  Inl e \<Rightarrow> Inl e
                | Inr s2 \<Rightarrow>
                   (case makeNode lower s2 of
                      (node, s3) \<Rightarrow>
                       (let s4 = s3\<lparr>nodes := (nodes s3)[nat node := (nodes s3 ! nat node)
                                  \<lparr>threshold := getDistance s3 (fst (items s3 ! nat lower))
                                                               (fst (items s3 ! nat median))\<rparr>]\<rparr>
                        in
                        (case makeTree nth_element uni (lower + 1) median s4 of
                           Inl e \<Rightarrow> Inl e
                         | Inr (l, s5) \<Rightarrow>
                            (let s6 = s5\<lparr>nodes := (nodes s5)[nat node :=
                                                   (nodes s5 ! nat node)\<lparr>left := l\<rparr>]\<rparr>
                             in
                             (case makeTree nth_element uni median upper s6 of
                                Inl e \<Rightarrow> Inl e
                              | Inr (r, s7) \<Rightarrow>
                                 Inr (node, s7\<lparr>nodes := (nodes s7)[nat node :=
                                                   (nodes s7 ! nat node)\<lparr>right := r\<rparr>]\<rparr>))))))))))"
  by pat_completeness auto
termination
  by (relation "measure (\<lambda>(n, u, lower, upper, s). nat (upper - lower))") auto

declare makeTree.simps [simp del]

text \<open>
  The constructor: \<open>seed\<close> is the state of \<open>rng_\<close> after \<open>rng_.seed(rd())\<close>; \<open>reserve\<close>
  does not change the value of the vector. The result of the outer \<open>makeTree\<close> is dropped,
  as in the source.
\<close>

definition VpTree_ctor ::
  "((('a \<times> int) \<Rightarrow> ('a \<times> int) \<Rightarrow> bool) \<Rightarrow> nat \<Rightarrow> ('a \<times> int) list \<Rightarrow> ('a \<times> int) list) \<Rightarrow>
   (int \<Rightarrow> int \<Rightarrow> 'g \<Rightarrow> int \<times> 'g) \<Rightarrow> 'g \<Rightarrow>
   'a list \<Rightarrow> ('a \<Rightarrow> 'a \<Rightarrow> real) \<Rightarrow> error + ('a, 'g) VpTree" where
  "VpTree_ctor nth_element uni seed xs metric =
     (case makeItems xs of
        Inl e \<Rightarrow> Inl e
      | Inr its \<Rightarrow>
         (case makeTree nth_element uni 0 (int (length its))
                 \<lparr>getDistance = metric, items = its, nodes = [], rng = seed\<rparr> of
            Inl e \<Rightarrow> Inl e
          | Inr (r, t) \<Rightarrow> Inr t))"

text \<open>\<open>VpTree::root\<close>: \<open>nodes_[0]\<close>.\<close>

definition VpTree_root :: "('a, 'g) VpTree \<Rightarrow> error + Node" where
  "VpTree_root tree = vec_at (nodes tree) 0"

subsection \<open>Search\<close>

text \<open>
  \<open>Result\<close>: the member \<open>item\<close> is a pointer to the first component of an element of
  \<open>items_\<close>; the model keeps the position of that element as the address, and \<open>deref\<close> is
  \<open>operator*\<close>.
\<close>

record Result =
  r_item :: int
  index :: int
  dist :: real

definition deref :: "('a, 'g) VpTree \<Rightarrow> Result \<Rightarrow> 'a" where
  "deref tree r = fst (items tree ! nat (r_item r))"

record HeapItem =
  h_item :: int
  h_dist :: real

text \<open>
  Modelled from the spec: \<open>std::priority_queue<HeapItem>\<close> is library code. It is a
  max-heap keyed by \<open>dist\<close> (\<open>operator<\<close> of \<open>HeapItem\<close>): \<open>top\<close> is an element of greatest
  \<open>dist\<close>, \<open>pop\<close> removes it and is undefined on an empty queue. The model keeps the
  elements in a list of ascending \<open>dist\<close> with the top at the end; which of several
  elements of equal \<open>dist\<close> is on top is left open by the library and fixed by \<open>insort_key\<close>
  here.
\<close>

definition pq_push :: "HeapItem \<Rightarrow> HeapItem list \<Rightarrow> HeapItem list" where
  "pq_push x h = insort_key h_dist x h"

definition pq_top :: "HeapItem list \<Rightarrow> HeapItem" where
  "pq_top h = last h"

definition pq_pop :: "HeapItem list \<Rightarrow> error + HeapItem list" where
  "pq_pop h = (if h = [] then Inl PopEmptyHeap else Inr (butlast h))"

text \<open>
  The mutable members of \<open>Searcher\<close>; \<open>tree_\<close>, \<open>target_\<close> and \<open>neighborsCount_\<close> never
  change and are arguments of the functions below.
\<close>

record Searcher =
  tau :: real
  heap :: "HeapItem list"

text \<open>The constructor of \<open>Searcher\<close>.\<close>

definition Searcher_ctor :: Searcher where
  "Searcher_ctor = \<lparr>tau = DBL_MAX, heap = []\<rparr>"

text \<open>
  The first statement of \<open>searchInNode\<close> (\<open>if (dist < tau_) ...\<close>). In
  \<open>heap_.size() == neighborsCount_\<close> the \<open>int\<close> is converted to \<open>size_t\<close>: a negative
  count becomes a number above every possible size, so the comparison is false, as it
  is on the integers. \<open>top\<close> is called on a queue that has just been pushed to.
\<close>

definition admit :: "int \<Rightarrow> int \<Rightarrow> real \<Rightarrow> Searcher \<Rightarrow> error + Searcher" where
  "admit k it d s =
     (if d < tau s then
        (case (if int (length (heap s)) = k then pq_pop (heap s) else Inr (heap s)) of
           Inl e \<Rightarrow> Inl e
         | Inr h \<Rightarrow>
            (let h' = pq_push \<lparr>h_item = it, h_dist = d\<rparr> h
             in Inr (if int (length h') = k
                     then \<lparr>tau = h_dist (pq_top h'), heap = h'\<rparr>
                     else \<lparr>tau = tau s, heap = h'\<rparr>)))
      else Inr s)"

text \<open>
  \<open>searchInNode\<close>. The recursion follows the child indices stored in \<open>nodes_\<close>, which on
  an arbitrary node vector need not end: \<open>fuel\<close> bounds the depth of the recursion, and
  \<open>None\<close> is the search that has not returned within it.
\<close>

fun searchInNode ::
  "nat \<Rightarrow> ('a, 'g) VpTree \<Rightarrow> 'a \<Rightarrow> int \<Rightarrow> Node \<Rightarrow> Searcher \<Rightarrow> (error + Searcher) option" where
  "searchInNode 0 tree target k node s = None"
| "searchInNode (Suc fuel) tree target k node s =
     (case vec_at (items tree) (item node) of
        Inl e \<Rightarrow> Some (Inl e)
      | Inr p \<Rightarrow>
         (let d = getDistance tree (fst p) target in
          (case admit k (item node) d s of
             Inl e \<Rightarrow> Some (Inl e)
           | Inr s1 \<Rightarrow>
              if d < threshold node then
                (case (if left node \<noteq> Leaf \<and> d - tau s1 \<le> threshold node
                       then (case vec_at (nodes tree) (left node) of
                               Inl e \<Rightarrow> Some (Inl e)
                             | Inr n \<Rightarrow> searchInNode fuel tree target k n s1)
                       else Some (Inr s1)) of
                   None \<Rightarrow> None
                 | Some (Inl e) \<Rightarrow> Some (Inl e)
                 | Some (Inr s2) \<Rightarrow>
                    if right node \<noteq> Leaf \<and> d + tau s2 \<ge> threshold node
                    then (case vec_at (nodes tree) (right node) of
                            Inl e \<Rightarrow> Some (Inl e)
                          | Inr n \<Rightarrow> searchInNode fuel tree target k n s2)
                    else Some (Inr s2))
              else
                (case (if right node \<noteq> Leaf \<and> d + tau s1 \<ge> threshold node
                       then (case vec_at (nodes tree) (right node) of
                               Inl e \<Rightarrow> Some (Inl e)
                             | Inr n \<Rightarrow> searchInNode fuel tree target k n s1)
                       else Some (Inr s1)) of
                   None \<Rightarrow> None
                 | Some (Inl e) \<Rightarrow> Some (Inl e)
                 | Some (Inr s2) \<Rightarrow>
                    if left node \<noteq> Leaf \<and> d - tau s2 \<le> threshold node
                    then (case vec_at (nodes tree) (left node) of
                            Inl e \<Rightarrow> Some (Inl e)
                          | Inr n \<Rightarrow> searchInNode fuel tree target k n s2)
                    else Some (Inr s2)))))"

text \<open>The loop of \<open>search\<close> that empties the heap into \<open>results\<close>.\<close>

function search_loop ::
  "('a, 'g) VpTree \<Rightarrow> HeapItem list \<Rightarrow> Result list \<Rightarrow> error + Result list" where
  "search_loop tree h results =
     (if h = [] then Inr results
      else
        (let it = h_item (pq_top h) in
         (case vec_at (items tree) it of
            Inl e \<Rightarrow> Inl e
          | Inr p \<Rightarrow>
             (let result = \<lparr>r_item = it, index = snd p, dist = h_dist (pq_top h)\<rparr> in
              (case pq_pop h of
                 Inl e \<Rightarrow> Inl e
               | Inr h' \<Rightarrow> search_loop tree h' (results @ [result]))))))"
  by pat_completeness auto
termination
  by (relation "measure (\<lambda>(tree, h, results). length h)")
     (auto simp: pq_pop_def split: if_splits)

declare search_loop.simps [simp del]

definition search ::
  "nat \<Rightarrow> ('a, 'g) VpTree \<Rightarrow> 'a \<Rightarrow> int \<Rightarrow> Searcher \<Rightarrow> (error + Result list) option" where
  "search fuel tree target k s0 =
     (case VpTree_root tree of
        Inl e \<Rightarrow> Some (Inl e)
      | Inr rt \<Rightarrow>
         (case searchInNode fuel tree target k rt s0 of
            None \<Rightarrow> None
          | Some (Inl e) \<Rightarrow> Some (Inl e)
          | Some (Inr s) \<Rightarrow>
             (case search_loop tree (heap s) [] of
                Inl e \<Rightarrow> Some (Inl e)
              | Inr results \<Rightarrow> Some (Inr (rev results)))))"

definition getNearestNeighbors ::
  "nat \<Rightarrow> ('a, 'g) VpTree \<Rightarrow> 'a \<Rightarrow> int \<Rightarrow> (error + Result list) option" where
  "getNearestNeighbors fuel tree target neighborsCount =
     search fuel tree target neighborsCount Searcher_ctor"

subsection \<open>An instance of the library routines\<close>

text \<open>
  A selection that sorts the whole range by insertion, and a generator that always
  draws the lower bound: one of the behaviours the contracts below allow, used to run
  the builder on concrete inputs.
\<close>

fun insert_by :: "('x \<Rightarrow> 'x \<Rightarrow> bool) \<Rightarrow> 'x \<Rightarrow> 'x list \<Rightarrow> 'x list" where
  "insert_by lt x [] = [x]"
| "insert_by lt x (y # ys) = (if lt x y then x # y # ys else y # insert_by lt x ys)"

definition nth_element_sort :: "('x \<Rightarrow> 'x \<Rightarrow> bool) \<Rightarrow> nat \<Rightarrow> 'x list \<Rightarrow> 'x list" where
  "nth_element_sort lt k xs = foldr (insert_by lt) xs []"

definition uni_lower :: "int \<Rightarrow> int \<Rightarrow> unit \<Rightarrow> int \<times> unit" where
  "uni_lower a b g = (a, g)"

subsection \<open>The contracts of the library routines\<close>

text \<open>
  \<open>std::nth_element\<close> with a comparison \<open>key a < key b\<close>: the range is permuted, no
  element before position \<open>k\<close> has a greater key than the element at \<open>k\<close>, and no
  element after it a smaller one. \<open>std::uniform_int_distribution(a, b)\<close> draws from the
  closed interval.
\<close>

definition nth_element_contract ::
  "(('x \<Rightarrow> 'x \<Rightarrow> bool) \<Rightarrow> nat \<Rightarrow> 'x list \<Rightarrow> 'x list) \<Rightarrow> bool" where
  "nth_element_contract nth_element =
     (\<forall>(key :: 'x \<Rightarrow> real) k xs. k < length xs \<longrightarrow>
        mset (nth_element (\<lambda>a b. key a < key b) k xs) = mset xs
        \<and> (\<forall>i<k. key (nth_element (\<lambda>a b. key a < key b) k xs ! i)
                    \<le> key (nth_element (\<lambda>a b. key a < key b) k xs ! k))
        \<and> (\<forall>j<length xs. k < j \<longrightarrow>
               key (nth_element (\<lambda>a b. key a < key b) k xs ! k)
                 \<le> key (nth_element (\<lambda>a b. key a < key b) k xs ! j)))"

definition uniform_contract :: "(int \<Rightarrow> int \<Rightarrow> 'g \<Rightarrow> int \<times> 'g) \<Rightarrow> bool" where
  "uniform_contract uni = (\<forall>a b g. a \<le> b \<longrightarrow> a \<le> fst (uni a b g) \<and> fst (uni a b g) \<le> b)"

subsection \<open>The tree that a node vector represents\<close>

text \<open>
  \<open>Fork it th l r\<close> is a node with the fields \<open>item\<close> and \<open>threshold\<close> and its two
  subtrees. \<open>layout b t\<close> is the node vector that stores \<open>t\<close> in preorder from the index
  \<open>b\<close> on, with child indices as \<open>makeTree\<close> sets them. \<open>slice a b xs\<close> is the range
  \<open>[a, b)\<close> of a vector, and \<open>frame l u xs ys\<close> says that \<open>ys\<close> is \<open>xs\<close> with the range
  \<open>[l, u)\<close> permuted.
\<close>

datatype vptree = Tip | Fork int real vptree vptree

fun layout :: "int \<Rightarrow> vptree \<Rightarrow> Node list" where
  "layout b Tip = []"
| "layout b (Fork it th l r) =
     \<lparr>item = it, threshold = th,
      left = (if l = Tip then Leaf else b + 1),
      right = (if r = Tip then Leaf else b + 1 + int (size l))\<rparr>
     # layout (b + 1) l @ layout (b + 1 + int (size l)) r"

definition slice :: "nat \<Rightarrow> nat \<Rightarrow> 'x list \<Rightarrow> 'x list" where
  "slice a b xs = map ((!) xs) [a..<b]"

definition frame :: "nat \<Rightarrow> nat \<Rightarrow> 'x list \<Rightarrow> 'x list \<Rightarrow> bool" where
  "frame l u xs ys =
     (length ys = length xs
      \<and> (\<forall>i<length xs. (i < l \<or> u \<le> i) \<longrightarrow> ys ! i = xs ! i)
      \<and> mset (slice l u ys) = mset (slice l u xs))"


text \<open>
  \<open>built d its l u t\<close>: the tree \<open>t\<close> is what \<open>makeTree\<close> builds over the range \<open>[l, u)\<close>
  of the items \<open>its\<close>: the vantage point is the item at \<open>l\<close>, the left subtree covers the
  range up to the median and holds items at distance at most \<open>th\<close>, the right subtree
  the rest and items at distance at least \<open>th\<close>, and \<open>th\<close> is \<open>0\<close> or a distance to an
  item of the range.
\<close>

fun built :: "('a \<Rightarrow> 'a \<Rightarrow> real) \<Rightarrow> ('a \<times> int) list \<Rightarrow> nat \<Rightarrow> nat \<Rightarrow> vptree \<Rightarrow> bool" where
  "built d its l u Tip = (l = u)"
| "built d its l u (Fork it th lt rt) =
     (l < u \<and> it = int l
      \<and> built d its (Suc l) (Suc l + size lt) lt
      \<and> built d its (Suc l + size lt) u rt
      \<and> (\<forall>p\<in>set (slice (Suc l) (Suc l + size lt) its). d (fst (its ! l)) (fst p) \<le> th)
      \<and> (\<forall>p\<in>set (slice (Suc l + size lt) u its). th \<le> d (fst (its ! l)) (fst p))
      \<and> (th = 0 \<or> (\<exists>p\<in>set (slice (Suc l) u its). th = d (fst (its ! l)) (fst p))))"


text \<open>
  \<open>step_threshold\<close>: the first step of \<open>makeTree\<close> on the range \<open>[l, u)\<close> of the state
  \<open>s\<close> (\<open>selectRoot\<close>, then \<open>partitionByDistance\<close> around the median) succeeds, and the
  root of \<open>t\<close> carries the distance from the item at \<open>l\<close> to the item at the median, both
  read after that step.
\<close>

definition step_threshold ::
  "((('a \<times> int) \<Rightarrow> ('a \<times> int) \<Rightarrow> bool) \<Rightarrow> nat \<Rightarrow> ('a \<times> int) list \<Rightarrow> ('a \<times> int) list) \<Rightarrow>
   (int \<Rightarrow> int \<Rightarrow> 'g \<Rightarrow> int \<times> 'g) \<Rightarrow> nat \<Rightarrow> nat \<Rightarrow> ('a, 'g) VpTree \<Rightarrow> vptree \<Rightarrow> bool" where
  "step_threshold nth_element uni l u s t =
     (\<exists>s1 s2 tl tr.
        selectRoot uni (int l) (int u) s = Inr s1
        \<and> partitionByDistance nth_element (int l) ((int u + int l) div 2) (int u) s1 = Inr s2
        \<and> t = Fork (int l)
                 (getDistance s (fst (items s2 ! l)) (fst (items s2 ! ((u + l) div 2)))) tl tr)"

text \<open>The value of \<open>items_\<close> that \<open>makeItems\<close> returns: every item with its position.\<close>

definition indexed :: "'a list \<Rightarrow> ('a \<times> int) list" where
  "indexed xs = map (\<lambda>j. (xs ! j, int j)) [0..<length xs]"

text \<open>
  The \<open>item\<close> fields of a tree in preorder, and the invariant of a vantage-point tree:
  at every node the items of the left subtree are at distance at most \<open>threshold\<close> from
  the node's item, those of the right subtree at distance at least \<open>threshold\<close>.
\<close>

fun tree_items :: "vptree \<Rightarrow> int list" where
  "tree_items Tip = []"
| "tree_items (Fork it th l r) = it # tree_items l @ tree_items r"

fun vp_invariant :: "('a \<Rightarrow> 'a \<Rightarrow> real) \<Rightarrow> ('a \<times> int) list \<Rightarrow> vptree \<Rightarrow> bool" where
  "vp_invariant d its Tip = True"
| "vp_invariant d its (Fork it th l r) =
     ((\<forall>j\<in>set (tree_items l). d (fst (its ! nat it)) (fst (its ! nat j)) \<le> th)
      \<and> (\<forall>j\<in>set (tree_items r). th \<le> d (fst (its ! nat it)) (fst (its ! nat j)))
      \<and> vp_invariant d its l \<and> vp_invariant d its r)"


text \<open>
  The \<open>item\<close> fields of the nodes that \<open>searchInNode\<close> can reach from the node with index
  \<open>i\<close> of a node vector, in preorder; \<open>fuel\<close> bounds the depth, and \<open>Leaf\<close> and every index
  outside the vector reach nothing.
\<close>

fun subtree_items :: "nat \<Rightarrow> Node list \<Rightarrow> int \<Rightarrow> int list" where
  "subtree_items 0 ns i = []"
| "subtree_items (Suc fuel) ns i =
     (if in_bounds ns i
      then item (ns ! nat i) # subtree_items fuel ns (left (ns ! nat i))
                             @ subtree_items fuel ns (right (ns ! nat i))
      else [])"

text \<open>The distance of two integers on the line, to run the model on concrete items.\<close>

definition abs_metric :: "int \<Rightarrow> int \<Rightarrow> real" where
  "abs_metric a b = \<bar>real_of_int a - real_of_int b\<bar>"

text \<open>The tree that the instance of the library routines builds over \<open>[5, 1, 9, 3]\<close>.\<close>

definition example_tree :: "(int, unit) VpTree" where
  "example_tree =
     \<lparr>getDistance = abs_metric,
      items = [(5, 0), (3, 3), (9, 2), (1, 1)],
      nodes = [\<lparr>item = 0, threshold = 4, left = 1, right = 2\<rparr>,
               \<lparr>item = 1, threshold = 0, left = - 1, right = - 1\<rparr>,
               \<lparr>item = 2, threshold = 8, left = - 1, right = 3\<rparr>,
               \<lparr>item = 3, threshold = 0, left = - 1, right = - 1\<rparr>],
      rng = ()\<rparr>"

text \<open>
  \<open>searchT\<close> is \<open>searchInNode\<close> on the tree that the node vector represents: the same
  admission and the same two guarded visits in the same order, with the child taken from
  the tree instead of being read through its index.
\<close>

fun searchT ::
  "('a \<Rightarrow> 'a \<Rightarrow> real) \<Rightarrow> ('a \<times> int) list \<Rightarrow> 'a \<Rightarrow> int \<Rightarrow> vptree \<Rightarrow> Searcher \<Rightarrow> error + Searcher" where
  "searchT d its target k Tip s = Inr s"
| "searchT d its target k (Fork it th l r) s =
     (case admit k it (d (fst (its ! nat it)) target) s of
        Inl e \<Rightarrow> Inl e
      | Inr s1 \<Rightarrow>
         if d (fst (its ! nat it)) target < th then
           (case (if l \<noteq> Tip \<and> d (fst (its ! nat it)) target - tau s1 \<le> th
                  then searchT d its target k l s1 else Inr s1) of
              Inl e \<Rightarrow> Inl e
            | Inr s2 \<Rightarrow>
               if r \<noteq> Tip \<and> d (fst (its ! nat it)) target + tau s2 \<ge> th
               then searchT d its target k r s2 else Inr s2)
         else
           (case (if r \<noteq> Tip \<and> d (fst (its ! nat it)) target + tau s1 \<ge> th
                  then searchT d its target k r s1 else Inr s1) of
              Inl e \<Rightarrow> Inl e
            | Inr s2 \<Rightarrow>
               if l \<noteq> Tip \<and> d (fst (its ! nat it)) target - tau s2 \<le> th
               then searchT d its target k l s2 else Inr s2))"

text \<open>
  \<open>cand\<close> is the heap entry that \<open>searchInNode\<close> pushes for the item at a position, and
  \<open>mkResult\<close> the \<open>Result\<close> that the loop of \<open>search\<close> builds from a heap entry.
\<close>

definition cand :: "('a \<Rightarrow> 'a \<Rightarrow> real) \<Rightarrow> ('a \<times> int) list \<Rightarrow> 'a \<Rightarrow> int \<Rightarrow> HeapItem" where
  "cand d its target it = \<lparr>h_item = it, h_dist = d (fst (its ! nat it)) target\<rparr>"

definition mkResult :: "('a, 'g) VpTree \<Rightarrow> HeapItem \<Rightarrow> Result" where
  "mkResult tree h =
     \<lparr>r_item = h_item h, index = snd (items tree ! nat (h_item h)), dist = h_dist h\<rparr>"

text \<open>
  The thresholds of a tree. \<open>searcher_inv\<close>: the heap holds \<open>k\<close> entries, or it holds
  fewer (or \<open>k\<close> is negative) and \<open>tau\<close> still has its initial value. \<open>result_count k n\<close>
  is the number of entries in the heap after \<open>n\<close> admissible candidates. \<open>run_ok\<close>
  relates the searcher before and after the search of a subtree.
\<close>

fun thresholds :: "vptree \<Rightarrow> real list" where
  "thresholds Tip = []"
| "thresholds (Fork it th l r) = th # thresholds l @ thresholds r"

definition searcher_inv :: "int \<Rightarrow> Searcher \<Rightarrow> bool" where
  "searcher_inv k s =
     (int (length (heap s)) = k
      \<or> (tau s = DBL_MAX \<and> (k < 0 \<or> int (length (heap s)) < k)))"

definition result_count :: "int \<Rightarrow> nat \<Rightarrow> nat" where
  "result_count k n = (if k < 0 then n else min (nat k) n)"

definition run_ok ::
  "('a \<Rightarrow> 'a \<Rightarrow> real) \<Rightarrow> ('a \<times> int) list \<Rightarrow> 'a \<Rightarrow> int \<Rightarrow> vptree \<Rightarrow> Searcher \<Rightarrow> Searcher \<Rightarrow> bool" where
  "run_ok d its target k t s s' =
     (searcher_inv k s'
      \<and> length (heap s') = result_count k (length (heap s) + size t)
      \<and> ((k < 0 \<or> int (length (heap s) + size t) \<le> k) \<longrightarrow>
            mset (heap s') = mset (heap s) + mset (map (cand d its target) (tree_items t))))"

text \<open>
  A metric whose distance between different points is \<open>DBL_MAX\<close>, and the trees that the
  instance of the library routines builds with it over \<open>[5]\<close> and over \<open>[5, 6]\<close>.
\<close>

definition far_metric :: "int \<Rightarrow> int \<Rightarrow> real" where
  "far_metric a b = (if a = b then 0 else DBL_MAX)"

definition far_tree :: "(int, unit) VpTree" where
  "far_tree =
     \<lparr>getDistance = far_metric,
      items = [(5, 0)],
      nodes = [\<lparr>item = 0, threshold = 0, left = - 1, right = - 1\<rparr>],
      rng = ()\<rparr>"

definition far_tree2 :: "(int, unit) VpTree" where
  "far_tree2 =
     \<lparr>getDistance = far_metric,
      items = [(5, 0), (6, 1)],
      nodes = [\<lparr>item = 0, threshold = DBL_MAX, left = - 1, right = 1\<rparr>,
               \<lparr>item = 1, threshold = 0, left = - 1, right = - 1\<rparr>],
      rng = ()\<rparr>"

section \<open>Theorems\<close>

subsection \<open>Ranges and frames\<close>

lemma size_vptree_Fork [simp]: "size (Fork it th l r) = Suc (size l + size r)"
  by simp

lemma length_layout [simp]: "length (layout b t) = size t"
  by (induction t arbitrary: b) auto

lemma slice_Nil [simp]: "slice a a xs = []"
  by (simp add: slice_def)

lemma length_slice [simp]: "length (slice a b xs) = b - a"
  by (simp add: slice_def)

lemma nth_slice [simp]: "i < b - a \<Longrightarrow> slice a b xs ! i = xs ! (a + i)"
  by (simp add: slice_def)

lemma slice_append: "a \<le> b \<Longrightarrow> b \<le> c \<Longrightarrow> slice a c xs = slice a b xs @ slice b c xs"
  by (rule nth_equalityI) (auto simp: nth_append add.commute)

lemma slice_cong: "(\<And>i. a \<le> i \<Longrightarrow> i < b \<Longrightarrow> ys ! i = xs ! i) \<Longrightarrow> slice a b ys = slice a b xs"
  by (simp add: slice_def)

lemma slice_whole: "slice 0 (length xs) xs = xs"
  by (simp add: slice_def map_nth)

lemma slice_eq_take_drop: "b \<le> length xs \<Longrightarrow> slice a b xs = take (b - a) (drop a xs)"
  by (rule nth_equalityI) auto

lemma set_slice: "set (slice a b xs) = (\<lambda>i. xs ! i) ` {a..<b}"
  by (simp add: slice_def)

lemma frame_refl: "frame l u xs xs"
  by (simp add: frame_def)

lemma frame_trans: "frame l u xs ys \<Longrightarrow> frame l u ys zs \<Longrightarrow> frame l u xs zs"
  by (simp add: frame_def)

lemma frame_length: "frame l u xs ys \<Longrightarrow> length ys = length xs"
  by (simp add: frame_def)

lemma frame_nth: "frame l u xs ys \<Longrightarrow> i < length xs \<Longrightarrow> i < l \<or> u \<le> i \<Longrightarrow> ys ! i = xs ! i"
  by (auto simp: frame_def)

lemma frame_slice_outside:
  assumes "frame l u xs ys" "b \<le> length xs" "b \<le> l \<or> u \<le> a"
  shows "slice a b ys = slice a b xs"
  using assms by (intro slice_cong) (auto simp: frame_def)

lemma frame_mset: "frame l u xs ys \<Longrightarrow> mset (slice l u ys) = mset (slice l u xs)"
  by (simp add: frame_def)

lemma frame_set: "frame l u xs ys \<Longrightarrow> set (slice l u ys) = set (slice l u xs)"
  by (metis frame_mset mset_eq_setD)

lemma frame_widen:
  assumes f: "frame l u xs ys" and le: "l' \<le> l" "l \<le> u" "u \<le> u'" "u' \<le> length xs"
  shows "frame l' u' xs ys"
proof -
  have a: "slice l' l ys = slice l' l xs"
    using f le by (intro frame_slice_outside [OF f]) auto
  have b: "slice u u' ys = slice u u' xs"
    using f le by (intro frame_slice_outside [OF f]) auto
  have split: "\<And>zs::'a list. slice l' u' zs = slice l' l zs @ slice l u zs @ slice u u' zs"
    using le by (simp add: slice_append [of l' l u'] slice_append [of l u u'])
  have "mset (slice l' u' ys) = mset (slice l' u' xs)"
    using a b frame_mset [OF f] by (simp add: split)
  then show ?thesis
    using f le by (auto simp: frame_def)
qed

lemma frame_mset_whole:
  assumes "frame l u xs ys" "l \<le> u" "u \<le> length xs"
  shows "mset ys = mset xs"
proof -
  have "frame 0 (length xs) xs ys"
    using assms by (intro frame_widen [OF assms(1)]) auto
  then have "mset (slice 0 (length ys) ys) = mset (slice 0 (length xs) xs)"
    by (simp add: frame_def)
  then show ?thesis by (simp only: slice_whole)
qed

lemma slice_swap:
  assumes "l \<le> r" "r < u" "u \<le> length xs"
  shows "slice l u (xs[l := xs ! r, r := xs ! l])
         = (slice l u xs)[0 := slice l u xs ! (r - l), r - l := slice l u xs ! 0]"
  using assms
  by (intro nth_equalityI) (auto simp: nth_list_update)

lemma frame_swap:
  assumes "l \<le> r" "r < u" "u \<le> length xs"
  shows "frame l u xs (xs[l := xs ! r, r := xs ! l])"
proof -
  have "mset ((slice l u xs)[0 := slice l u xs ! (r - l), r - l := slice l u xs ! 0])
        = mset (slice l u xs)"
    using assms by (intro mset_swap) auto
  then have "mset (slice l u (xs[l := xs ! r, r := xs ! l])) = mset (slice l u xs)"
    by (simp only: slice_swap [OF assms])
  then show ?thesis
    using assms by (auto simp: frame_def nth_list_update)
qed

lemma selectRoot_frame:
  assumes uni: "uniform_contract uni" and lu: "l < u" "u \<le> length (items s)"
  shows "\<exists>s1. selectRoot uni (int l) (int u) s = Inr s1
            \<and> frame l u (items s) (items s1)
            \<and> nodes s1 = nodes s \<and> getDistance s1 = getDistance s"
proof -
  obtain rt g where draw: "uni (int l) (int u - 1) (rng s) = (rt, g)"
    by (cases "uni (int l) (int u - 1) (rng s)")
  have "int l \<le> fst (uni (int l) (int u - 1) (rng s))
        \<and> fst (uni (int l) (int u - 1) (rng s)) \<le> int u - 1"
    using uni lu unfolding uniform_contract_def by (metis of_nat_less_iff zle_diff1_eq)
  then have rt: "int l \<le> rt" "rt < int u"
    by (simp_all add: draw)
  define r where "r = nat rt"
  have r: "l \<le> r" "r < u" "rt = int r"
    using rt by (auto simp: r_def)
  have "selectRoot uni (int l) (int u) s
        = Inr (s\<lparr>rng := g, items := (items s)[l := items s ! r, r := items s ! l]\<rparr>)"
    using lu r by (simp add: selectRoot_def draw in_bounds_def)
  then show ?thesis
    using frame_swap [OF r(1,2) lu(2)] by simp
qed

lemma partitionByDistance_frame:
  assumes nthel: "nth_element_contract nth_element"
    and lm: "Suc l \<le> m" "m < u" "u \<le> length (items s)"
  shows "\<exists>s2. partitionByDistance nth_element (int l) (int m) (int u) s = Inr s2
            \<and> frame (Suc l) u (items s) (items s2)
            \<and> nodes s2 = nodes s \<and> getDistance s2 = getDistance s
            \<and> (\<forall>p\<in>set (slice (Suc l) m (items s2)).
                  getDistance s (fst (items s ! l)) (fst p)
                    \<le> getDistance s (fst (items s ! l)) (fst (items s2 ! m)))
            \<and> (\<forall>p\<in>set (slice m u (items s2)).
                  getDistance s (fst (items s ! l)) (fst (items s2 ! m))
                    \<le> getDistance s (fst (items s ! l)) (fst p))"
proof -
  define key :: "'a \<times> int \<Rightarrow> real" where "key = (\<lambda>p. getDistance s (fst (items s ! l)) (fst p))"
  define xs where "xs = items s"
  define sl where "sl = take (u - Suc l) (drop (Suc l) xs)"
  define k where "k = m - Suc l"
  define zs where "zs = nth_element (\<lambda>a b. key a < key b) k sl"
  define ys where "ys = take (Suc l) xs @ zs @ drop u xs"
  have len_sl: "length sl = u - Suc l"
    using lm by (simp add: sl_def xs_def)
  have k: "k < length sl"
    using lm by (simp add: len_sl k_def)
  have sl: "sl = slice (Suc l) u xs"
    using lm by (simp add: sl_def xs_def slice_eq_take_drop)
  from nthel k have c: "mset zs = mset sl"
      "\<forall>i<k. key (zs ! i) \<le> key (zs ! k)"
      "\<forall>j<length sl. k < j \<longrightarrow> key (zs ! k) \<le> key (zs ! j)"
    unfolding nth_element_contract_def zs_def by blast+
  have len_zs: "length zs = u - Suc l"
    using c(1) len_sl by (metis size_mset)
  have eq: "partitionByDistance nth_element (int l) (int m) (int u) s = Inr (s\<lparr>items := ys\<rparr>)"
    using lm
    by (simp add: partitionByDistance_def Let_def ys_def zs_def sl_def k_def key_def xs_def
        nat_add_distrib nat_diff_distrib)
  have len_ys: "length ys = length xs"
    using lm by (simp add: ys_def len_zs xs_def)
  have out: "\<forall>i<length xs. (i < Suc l \<or> u \<le> i) \<longrightarrow> ys ! i = xs ! i"
    using lm by (auto simp: ys_def nth_append len_zs xs_def min_def)
  have inner: "\<And>i. i < u - Suc l \<Longrightarrow> ys ! Suc (l + i) = zs ! i"
    using lm by (simp add: ys_def nth_append len_zs xs_def min_def)
  have zs: "slice (Suc l) u ys = zs"
    by (rule nth_equalityI) (simp_all add: len_zs inner)
  have fr: "frame (Suc l) u xs ys"
    unfolding frame_def using len_ys out zs c(1) sl by simp
  have ysm: "ys ! m = zs ! k"
    using inner [of k] lm by (simp add: k_def)
  have lo: "\<forall>p\<in>set (slice (Suc l) m ys). key p \<le> key (ys ! m)"
  proof
    fix p assume "p \<in> set (slice (Suc l) m ys)"
    then obtain i where i: "Suc l \<le> i" "i < m" "p = ys ! i"
      by (auto simp: set_slice)
    then have "p = zs ! (i - Suc l)"
      using inner [of "i - Suc l"] lm by simp
    moreover have "i - Suc l < k"
      using i by (simp add: k_def less_diff_conv2)
    ultimately show "key p \<le> key (ys ! m)"
      using c(2) ysm by simp
  qed
  have hi: "\<forall>p\<in>set (slice m u ys). key (ys ! m) \<le> key p"
  proof
    fix p assume "p \<in> set (slice m u ys)"
    then obtain i where i: "m \<le> i" "i < u" "p = ys ! i"
      by (auto simp: set_slice)
    then have p: "p = zs ! (i - Suc l)"
      using inner [of "i - Suc l"] lm by simp
    show "key (ys ! m) \<le> key p"
    proof (cases "i = m")
      case True
      then show ?thesis by (simp add: i)
    next
      case False
      then have "k < i - Suc l" "i - Suc l < length sl"
        using i lm by (auto simp: k_def len_sl)
      then show ?thesis
        using c(3) ysm p by simp
    qed
  qed
  show ?thesis
    using eq fr lo hi by (simp add: key_def xs_def)
qed

subsection \<open>The builder\<close>

lemma built_size: "built d its l u t \<Longrightarrow> u = l + size t"
proof (induction t arbitrary: l u)
  case Tip
  then show ?case by simp
next
  case (Fork it th lt rt)
  then have "built d its (Suc l + size lt) u rt"
    by simp
  then have "u = Suc l + size lt + size rt"
    by (rule Fork.IH(2))
  then show ?case by simp
qed

lemma built_cong:
  "built d xs l u t \<Longrightarrow> (\<And>i. l \<le> i \<Longrightarrow> i < u \<Longrightarrow> ys ! i = xs ! i) \<Longrightarrow> built d ys l u t"
proof (induction t arbitrary: l u)
  case Tip
  then show ?case by simp
next
  case (Fork it th lt rt)
  from Fork.prems(1) have sz: "u = Suc l + size lt + size rt"
    using built_size [OF Fork.prems(1)] by simp
  have eq: "\<And>a b. l \<le> a \<Longrightarrow> b \<le> u \<Longrightarrow> slice a b ys = slice a b xs"
    using Fork.prems(2) by (intro slice_cong) auto
  have l: "ys ! l = xs ! l"
    using Fork.prems by simp
  have 1: "built d ys (Suc l) (Suc l + size lt) lt"
    using Fork.prems sz by (intro Fork.IH(1)) auto
  have 2: "built d ys (Suc l + size lt) u rt"
    using Fork.prems sz by (intro Fork.IH(2)) auto
  show ?case
    using Fork.prems(1) 1 2 sz by (simp add: eq l)
qed


lemma makeTree_main:
  fixes s :: "('a, 'g) VpTree"
  assumes nthel: "nth_element_contract nth_element" and uni: "uniform_contract uni"
  shows "l \<le> u \<Longrightarrow> u \<le> length (items s) \<Longrightarrow>
     (makeTree nth_element uni (int l) (int u) s = Inl SignedOverflow \<and> 2 ^ 30 < u)
   \<or> (\<exists>t s'. makeTree nth_element uni (int l) (int u) s
                 = Inr (if t = Tip then Leaf else int (length (nodes s)), s')
          \<and> nodes s' = nodes s @ layout (int (length (nodes s))) t
          \<and> getDistance s' = getDistance s
          \<and> frame l u (items s) (items s')
          \<and> built (getDistance s) (items s') l u t
          \<and> (Suc l < u \<longrightarrow> step_threshold nth_element uni l u s t))"
proof (induction "u - l" arbitrary: l u s rule: less_induct)
  case less
  define b where "b = length (nodes s)"
  consider "l = u" | "Suc l = u" | "Suc l < u"
    using less.prems by linarith
  then show ?case
  proof cases
    case 1
    have "makeTree nth_element uni (int l) (int u) s = Inr (Leaf, s)"
      using 1 by (simp add: makeTree.simps)
    then show ?thesis
      using 1 by (intro disjI2 exI [of _ Tip] exI [of _ s]) (simp add: frame_refl)
  next
    case 2
    have "makeTree nth_element uni (int l) (int u) s
          = Inr (int b, s\<lparr>nodes := nodes s @ [Node_ctor (int l)]\<rparr>)"
      using 2 by (auto simp: makeTree.simps makeNode_def Let_def b_def)
    then show ?thesis
      using 2
      by (intro disjI2 exI [of _ "Fork (int l) 0 Tip Tip"]
            exI [of _ "s\<lparr>nodes := nodes s @ [Node_ctor (int l)]\<rparr>"])
         (simp add: frame_refl Node_ctor_def b_def)
  next
    case 3
    obtain s1 where s1: "selectRoot uni (int l) (int u) s = Inr s1"
        "frame l u (items s) (items s1)" "nodes s1 = nodes s" "getDistance s1 = getDistance s"
      using selectRoot_frame [OF uni, of l u s] 3 less.prems by auto
    show ?thesis
    proof (cases "int u + int l > INT_MAX")
      case True
      then have "makeTree nth_element uni (int l) (int u) s = Inl SignedOverflow"
        using 3 s1 by (simp add: makeTree.simps)
      moreover have "2 ^ 30 < u"
        using True 3 by (simp add: INT_MAX_def)
      ultimately show ?thesis by simp
    next
      case False
      define m where "m = (u + l) div 2"
      have m: "Suc l \<le> m" "m < u" "(int u + int l) div 2 = int m"
        using 3 by (auto simp: m_def zdiv_int)
      have len1: "length (items s1) = length (items s)"
        using s1(2) by (rule frame_length)
      obtain s2 where s2: "partitionByDistance nth_element (int l) (int m) (int u) s1 = Inr s2"
          "frame (Suc l) u (items s1) (items s2)" "nodes s2 = nodes s1"
          "getDistance s2 = getDistance s1"
          "\<forall>p\<in>set (slice (Suc l) m (items s2)).
              getDistance s1 (fst (items s1 ! l)) (fst p)
                \<le> getDistance s1 (fst (items s1 ! l)) (fst (items s2 ! m))"
          "\<forall>p\<in>set (slice m u (items s2)).
              getDistance s1 (fst (items s1 ! l)) (fst (items s2 ! m))
                \<le> getDistance s1 (fst (items s1 ! l)) (fst p)"
        using partitionByDistance_frame [OF nthel m(1,2), of s1] less.prems len1 by auto
      define th where "th = getDistance s (fst (items s2 ! l)) (fst (items s2 ! m))"
      define n4 where "n4 = \<lparr>item = int l, threshold = th, left = Leaf, right = Leaf\<rparr>"
      define s4 where "s4 = s2\<lparr>nodes := nodes s @ [n4]\<rparr>"
      have len2: "length (items s2) = length (items s)"
        using s2(2) len1 by (simp add: frame_length)
      have step: "makeTree nth_element uni (int l) (int u) s =
         (case makeTree nth_element uni (int (Suc l)) (int m) s4 of
            Inl e \<Rightarrow> Inl e
          | Inr (lr, s5) \<Rightarrow>
             (case makeTree nth_element uni (int m) (int u)
                     (s5\<lparr>nodes := (nodes s5)[b := (nodes s5 ! b)\<lparr>left := lr\<rparr>]\<rparr>) of
                Inl e \<Rightarrow> Inl e
              | Inr (rr, s7) \<Rightarrow>
                 Inr (int b, s7\<lparr>nodes := (nodes s7)[b := (nodes s7 ! b)\<lparr>right := rr\<rparr>]\<rparr>)))"
        apply (subst makeTree.simps)
        using 3 False s1 s2 m
        apply (simp add: Let_def makeNode_def s4_def n4_def th_def b_def Node_ctor_def add.commute
            split: sum.split prod.split)
        done
      have d1: "getDistance s4 = getDistance s"
        using s1 s2 by (simp add: s4_def)
      have it4: "items s4 = items s2"
        by (simp add: s4_def)
      have "(makeTree nth_element uni (int (Suc l)) (int m) s4 = Inl SignedOverflow \<and> 2 ^ 30 < m)
          \<or> (\<exists>t s'. makeTree nth_element uni (int (Suc l)) (int m) s4
                 = Inr (if t = Tip then Leaf else int (length (nodes s4)), s')
              \<and> nodes s' = nodes s4 @ layout (int (length (nodes s4))) t
              \<and> getDistance s' = getDistance s4
              \<and> frame (Suc l) m (items s4) (items s')
              \<and> built (getDistance s4) (items s') (Suc l) m t
              \<and> (Suc (Suc l) < m \<longrightarrow> step_threshold nth_element uni (Suc l) m s4 t))"
        using m less.prems len2 by (intro less.hyps) (auto simp: it4)
      then consider
          (ovf) "makeTree nth_element uni (int (Suc l)) (int m) s4 = Inl SignedOverflow" "2 ^ 30 < m"
        | (ok) tl s5 where
            "makeTree nth_element uni (int (Suc l)) (int m) s4
               = Inr (if tl = Tip then Leaf else int (length (nodes s4)), s5)"
            "nodes s5 = nodes s4 @ layout (int (length (nodes s4))) tl"
            "getDistance s5 = getDistance s4"
            "frame (Suc l) m (items s4) (items s5)"
            "built (getDistance s4) (items s5) (Suc l) m tl"
        by blast
      then show ?thesis
      proof cases
        case ovf
        have "makeTree nth_element uni (int l) (int u) s = Inl SignedOverflow"
          unfolding step ovf(1) by simp
        then show ?thesis
          using m ovf(2) by simp
      next
        case ok
        define lres where "lres = (if tl = Tip then Leaf else int b + 1)"
        define s6 where "s6 = s5\<lparr>nodes := nodes s @ [n4\<lparr>left := lres\<rparr>] @ layout (int b + 1) tl\<rparr>"
        have s6: "s5\<lparr>nodes := (nodes s5)[b := (nodes s5 ! b)
                    \<lparr>left := (if tl = Tip then Leaf else int (length (nodes s4)))\<rparr>]\<rparr> = s6"
          by (simp add: s6_def ok(2) s4_def b_def lres_def nth_append list_update_append add.commute)
        have len5: "length (items s5) = length (items s)"
          using ok(4) len2 by (simp add: frame_length it4)
        have it6: "items s6 = items s5" and d6: "getDistance s6 = getDistance s"
          using ok(3) d1 by (simp_all add: s6_def)
        have "(makeTree nth_element uni (int m) (int u) s6 = Inl SignedOverflow \<and> 2 ^ 30 < u)
            \<or> (\<exists>t s'. makeTree nth_element uni (int m) (int u) s6
                   = Inr (if t = Tip then Leaf else int (length (nodes s6)), s')
                \<and> nodes s' = nodes s6 @ layout (int (length (nodes s6))) t
                \<and> getDistance s' = getDistance s6
                \<and> frame m u (items s6) (items s')
                \<and> built (getDistance s6) (items s') m u t
                \<and> (Suc m < u \<longrightarrow> step_threshold nth_element uni m u s6 t))"
          using m 3 less.prems len5 by (intro less.hyps) (auto simp: it6)
        then consider
            (ovf2) "makeTree nth_element uni (int m) (int u) s6 = Inl SignedOverflow" "2 ^ 30 < u"
          | (ok2) tr s7 where
              "makeTree nth_element uni (int m) (int u) s6
                 = Inr (if tr = Tip then Leaf else int (length (nodes s6)), s7)"
              "nodes s7 = nodes s6 @ layout (int (length (nodes s6))) tr"
              "getDistance s7 = getDistance s6"
              "frame m u (items s6) (items s7)"
              "built (getDistance s6) (items s7) m u tr"
          by blast
        then show ?thesis
        proof cases
          case ovf2
          have "makeTree nth_element uni (int l) (int u) s = Inl SignedOverflow"
            unfolding step ok(1) by (simp add: s6 ovf2(1))
          then show ?thesis
            using ovf2(2) by simp
        next
          case ok2
          define rres where "rres = (if tr = Tip then Leaf else int b + 1 + int (size tl))"
          define t where "t = Fork (int l) th tl tr"
          define s' where "s' = s7\<lparr>nodes := nodes s @ layout (int b) t\<rparr>"
          have sz: "m = Suc l + size tl"
            using ok(5) by (rule built_size)
          have len6: "int (length (nodes s6)) = int b + 1 + int (size tl)"
            by (simp add: s6_def b_def)
          have s7: "s7\<lparr>nodes := (nodes s7)[b := (nodes s7 ! b)
                      \<lparr>right := (if tr = Tip then Leaf else int (length (nodes s6)))\<rparr>]\<rparr> = s'"
            unfolding len6
            by (simp add: s'_def t_def ok2(2) len6 s6_def b_def lres_def n4_def nth_append
                list_update_append ac_simps)
          have res: "makeTree nth_element uni (int l) (int u) s = Inr (int b, s')"
            unfolding step ok(1) by (simp add: s6 ok2(1) s7)
          have dist: "getDistance s' = getDistance s"
            using ok2(3) d6 by (simp add: s'_def)
          have its': "items s' = items s7"
            by (simp add: s'_def)
          have f2: "frame (Suc l) u (items s1) (items s2)"
            by (rule s2(2))
          have f5: "frame (Suc l) u (items s2) (items s5)"
            using m len2 less.prems
            by (intro frame_widen [OF ok(4) [unfolded it4]]) auto
          have f7: "frame (Suc l) u (items s5) (items s7)"
            using m len5 less.prems
            by (intro frame_widen [OF ok2(4) [unfolded it6]]) auto
          have f27: "frame (Suc l) u (items s2) (items s7)"
            using f5 f7 by (rule frame_trans)
          have f17: "frame (Suc l) u (items s1) (items s7)"
            using f2 f27 by (rule frame_trans)
          have "frame l u (items s1) (items s7)"
            using 3 less.prems len1 by (intro frame_widen [OF f17]) auto
          with s1(2) have fr: "frame l u (items s) (items s')"
            unfolding its' by (rule frame_trans)
          have vp2: "items s2 ! l = items s1 ! l"
            using f2 less.prems 3 len1 by (intro frame_nth) auto
          have vp7: "items s7 ! l = items s2 ! l"
            using f27 less.prems 3 len2 by (intro frame_nth) auto
          have th: "th = getDistance s (fst (items s7 ! l)) (fst (items s2 ! m))"
            by (simp add: th_def vp7)
          have lo5: "set (slice (Suc l) m (items s5)) = set (slice (Suc l) m (items s2))"
            using ok(4) unfolding it4 by (rule frame_set)
          have lo7: "slice (Suc l) m (items s7) = slice (Suc l) m (items s5)"
            using ok2(4) m less.prems len5 unfolding it6
            by (intro frame_slice_outside [where l = m and u = u]) auto
          have hi5: "slice m u (items s5) = slice m u (items s2)"
            using ok(4) m less.prems len2 unfolding it4
            by (intro frame_slice_outside [where l = "Suc l" and u = m]) auto
          have hi7: "set (slice m u (items s7)) = set (slice m u (items s5))"
            using ok2(4) unfolding it6 by (rule frame_set)
          have all7: "set (slice (Suc l) u (items s7)) = set (slice (Suc l) u (items s2))"
            using f27 by (rule frame_set)
          have b1: "built (getDistance s) (items s7) (Suc l) m tl"
          proof (rule built_cong)
            show "built (getDistance s) (items s5) (Suc l) m tl"
              using ok(5) by (simp add: d1)
            fix i assume "Suc l \<le> i" "i < m"
            then show "items s7 ! i = items s5 ! i"
              using ok2(4) m less.prems len5 unfolding it6 by (intro frame_nth) auto
          qed
          have b2: "built (getDistance s) (items s7) m u tr"
            using ok2(5) by (simp add: d6)
          have c1: "\<forall>p\<in>set (slice (Suc l) m (items s7)).
                      getDistance s (fst (items s7 ! l)) (fst p) \<le> th"
            using s2(5) by (simp add: lo7 lo5 th vp7 vp2 s1(4))
          have c2: "\<forall>p\<in>set (slice m u (items s7)).
                      th \<le> getDistance s (fst (items s7 ! l)) (fst p)"
            using s2(6) by (simp add: hi7 hi5 th vp7 vp2 s1(4))
          have "items s2 ! m \<in> set (slice (Suc l) u (items s2))"
            using m by (auto simp: set_slice)
          then have c3: "\<exists>p\<in>set (slice (Suc l) u (items s7)).
                      th = getDistance s (fst (items s7 ! l)) (fst p)"
            unfolding all7 using th by blast
          have stp: "step_threshold nth_element uni l u s t"
            unfolding step_threshold_def t_def th_def m(3)
            using s1(1) s2(1) by (auto simp: m_def)
          have bt: "built (getDistance s) (items s') l u t"
            using 3 b1 b2 c1 c2 c3 unfolding sz t_def its' by simp
          have "makeTree nth_element uni (int l) (int u) s
                  = Inr (if t = Tip then Leaf else int (length (nodes s)), s')
              \<and> nodes s' = nodes s @ layout (int (length (nodes s))) t
              \<and> getDistance s' = getDistance s
              \<and> frame l u (items s) (items s')
              \<and> built (getDistance s) (items s') l u t
              \<and> (Suc l < u \<longrightarrow> step_threshold nth_element uni l u s t)"
            using res dist fr bt stp by (simp add: t_def s'_def b_def)
          then show ?thesis by blast
        qed
      qed
    qed
  qed
qed


subsection \<open>The constructor\<close>

lemma makeItems_loop_eq:
  "i \<le> INT_MAX \<Longrightarrow> makeItems_loop i xs res =
     (if i + int (length xs) > INT_MAX then Inl SignedOverflow
      else Inr (res @ map (\<lambda>j. (xs ! j, i + int j)) [0..<length xs]))"
proof (induction xs arbitrary: i res)
  case Nil
  then show ?case by simp
next
  case (Cons x xs)
  show ?case
  proof (cases "i = INT_MAX")
    case True
    then show ?thesis by simp
  next
    case False
    then have "i + 1 \<le> INT_MAX" using Cons.prems by simp
    from Cons.IH [OF this] False show ?thesis
      by (simp add: map_upt_Suc add.assoc del: upt_Suc)
  qed
qed

lemma makeItems_eq:
  "makeItems xs = (if int (length xs) > INT_MAX then Inl SignedOverflow else Inr (indexed xs))"
  by (simp add: makeItems_def makeItems_loop_eq indexed_def INT_MAX_def)

lemma length_indexed [simp]: "length (indexed xs) = length xs"
  by (simp add: indexed_def)

lemma in_indexed: "p \<in> set (indexed xs) \<longleftrightarrow> (\<exists>j<length xs. p = (xs ! j, int j))"
  by (auto simp: indexed_def)

lemma built_items: "built d its l u t \<Longrightarrow> tree_items t = map int [l..<u]"
proof (induction t arbitrary: l u)
  case Tip
  then show ?case by simp
next
  case (Fork it th lt rt)
  then have 1: "tree_items lt = map int [Suc l..<Suc l + size lt]"
    and 2: "tree_items rt = map int [Suc l + size lt..<u]"
    and u: "u = Suc l + size lt + size rt" and it: "it = int l"
    using built_size [of d its "Suc l + size lt" u rt] by auto
  have "[Suc l..<u] = [Suc l..<Suc l + size lt] @ [Suc l + size lt..<u]"
    unfolding u using upt_add_eq_append [of "Suc l" "Suc l + size lt" "size rt"] by simp
  moreover have "[l..<u] = l # [Suc l..<u]"
    using u by (intro upt_conv_Cons) simp
  ultimately have "[l..<u] = l # [Suc l..<Suc l + size lt] @ [Suc l + size lt..<u]"
    by simp
  then show ?case
    by (simp add: 1 2 it)
qed

lemma layout_items: "map item (layout b t) = tree_items t"
  by (induction t arbitrary: b) auto

lemma built_vp_invariant: "built d its l u t \<Longrightarrow> vp_invariant d its t"
proof (induction t arbitrary: l u)
  case Tip
  then show ?case by simp
next
  case (Fork it th lt rt)
  then have bl: "built d its (Suc l) (Suc l + size lt) lt"
    and br: "built d its (Suc l + size lt) u rt" and it: "it = int l"
    and lo: "\<forall>p\<in>set (slice (Suc l) (Suc l + size lt) its). d (fst (its ! l)) (fst p) \<le> th"
    and hi: "\<forall>p\<in>set (slice (Suc l + size lt) u its). th \<le> d (fst (its ! l)) (fst p)"
    by auto
  have "vp_invariant d its lt" "vp_invariant d its rt"
    using Fork.IH bl br by blast+
  then show ?case
    using lo hi by (auto simp: built_items [OF bl] built_items [OF br] it set_slice)
qed


lemma mset_insert_by: "mset (insert_by lt x ys) = add_mset x (mset ys)"
  by (induction ys) auto

lemma set_insert_by: "set (insert_by lt x ys) = insert x (set ys)"
  by (induction ys) auto

lemma sorted_insert_by:
  fixes key :: "'x \<Rightarrow> real"
  shows "sorted (map key ys) \<Longrightarrow> sorted (map key (insert_by (\<lambda>a b. key a < key b) x ys))"
  by (induction ys) (auto simp: set_insert_by)

lemma mset_nth_element_sort: "mset (nth_element_sort lt k xs) = mset xs"
  unfolding nth_element_sort_def by (induction xs) (auto simp: mset_insert_by)

lemma sorted_nth_element_sort:
  fixes key :: "'x \<Rightarrow> real"
  shows "sorted (map key (nth_element_sort (\<lambda>a b. key a < key b) k xs))"
  unfolding nth_element_sort_def by (induction xs) (auto simp: sorted_insert_by)

lemma nth_element_sort_contract: "nth_element_contract nth_element_sort"
  unfolding nth_element_contract_def
proof (intro allI impI conjI)
  fix key :: "'a \<Rightarrow> real" and k :: nat and xs :: "'a list"
  assume k: "k < length xs"
  let ?zs = "nth_element_sort (\<lambda>a b. key a < key b) k xs"
  show m: "mset ?zs = mset xs"
    by (rule mset_nth_element_sort)
  have len: "length ?zs = length xs"
    using m by (metis size_mset)
  have srt: "sorted (map key ?zs)"
    by (rule sorted_nth_element_sort)
  fix i
  { assume "i < k"
    then have "map key ?zs ! i \<le> map key ?zs ! k"
      using k len by (intro sorted_nth_mono [OF srt]) auto
    then show "key (?zs ! i) \<le> key (?zs ! k)"
      using k len \<open>i < k\<close> by simp }
  { assume "i < length xs" "k < i"
    then have "map key ?zs ! k \<le> map key ?zs ! i"
      using k len by (intro sorted_nth_mono [OF srt]) auto
    then show "key (?zs ! k) \<le> key (?zs ! i)"
      using k len \<open>i < length xs\<close> by simp }
qed

lemma uni_lower_contract: "uniform_contract uni_lower"
  by (simp add: uniform_contract_def uni_lower_def)

lemma VpTree_ctor_built:
  assumes c: "nth_element_contract nth_element" "uniform_contract uni"
    and t: "VpTree_ctor nth_element uni seed xs metric = Inr tree"
  shows "\<exists>t. nodes tree = layout 0 t \<and> getDistance tree = metric
           \<and> frame 0 (length xs) (indexed xs) (items tree)
           \<and> built metric (items tree) 0 (length xs) t"
proof -
  define s0 where "s0 = \<lparr>getDistance = metric, items = indexed xs, nodes = [], rng = seed\<rparr>"
  have mi: "makeItems xs = Inr (indexed xs)"
    using t by (auto simp: VpTree_ctor_def makeItems_eq split: if_splits)
  have run: "(case makeTree nth_element uni 0 (int (length xs)) s0 of
                Inl e \<Rightarrow> Inl e | Inr (r, t) \<Rightarrow> Inr t) = Inr tree"
    using t by (simp add: VpTree_ctor_def mi s0_def)
  have "0 \<le> length xs" "length xs \<le> length (items s0)"
    by (simp_all add: s0_def)
  from makeTree_main [OF c this] run show ?thesis
    by (auto simp: s0_def)
qed

lemma VpTree_ctor_succeeds:
  assumes c: "nth_element_contract nth_element" "uniform_contract uni"
    and n: "length xs \<le> 2 ^ 30"
  shows "\<exists>tree. VpTree_ctor nth_element uni seed xs metric = Inr tree"
proof -
  define s0 where "s0 = \<lparr>getDistance = metric, items = indexed xs, nodes = [], rng = seed\<rparr>"
  have mi: "makeItems xs = Inr (indexed xs)"
    using n by (simp add: makeItems_eq INT_MAX_def)
  have "0 \<le> length xs" "length xs \<le> length (items s0)"
    by (simp_all add: s0_def)
  from makeTree_main [OF c this] n obtain r s' where
    "makeTree nth_element uni 0 (int (length xs)) s0 = Inr (r, s')"
    by fastforce
  then show ?thesis
    by (simp add: VpTree_ctor_def mi s0_def)
qed

lemma example_tree_constructed:
  "VpTree_ctor nth_element_sort uni_lower () [5, 1, 9, 3] abs_metric = Inr example_tree"
  by (simp add: VpTree_ctor_def makeItems_def makeTree.simps selectRoot_def uni_lower_def
      in_bounds_def INT_MAX_def partitionByDistance_def nth_element_sort_def abs_metric_def
      makeNode_def Node_ctor_def Leaf_def Let_def example_tree_def)

subsection \<open>The empty tree\<close>

text \<open>
  Claim C5. For the empty item set the construction succeeds and leaves \<open>nodes_\<close> empty.
  The search then starts with \<open>root()\<close>, which reads \<open>nodes_[0]\<close> of the empty vector:
  for every target and every neighbour count the query ends in the out-of-bounds read
  and returns no sequence, so the claim does not hold of the code.
\<close>

theorem empty_tree_search_out_of_bounds:
  "VpTree_ctor nth_element uni seed [] metric
     = Inr \<lparr>getDistance = metric, items = [], nodes = [], rng = seed\<rparr>
   \<and> getNearestNeighbors fuel \<lparr>getDistance = metric, items = [], nodes = [], rng = seed\<rparr> target k
     = Some (Inl OutOfBounds)"
  by (simp add: VpTree_ctor_def makeItems_def makeTree.simps getNearestNeighbors_def search_def
      VpTree_root_def vec_at_def in_bounds_def)

subsection \<open>The structure of a constructed tree\<close>

lemma subtree_items_Leaf [simp]: "subtree_items fuel ns Leaf = []"
  by (cases fuel) (simp_all add: in_bounds_def Leaf_def)

lemma subtree_items_layout:
  assumes "ns = pre @ layout (int (length pre)) t @ post" and "size t \<le> fuel"
  shows "subtree_items fuel ns (if t = Tip then Leaf else int (length pre)) = tree_items t"
  using assms
proof (induction t arbitrary: pre post fuel)
  case Tip
  then show ?case by simp
next
  case (Fork it th l r)
  define b where "b = int (length pre)"
  define nd where "nd = \<lparr>item = it, threshold = th, left = (if l = Tip then Leaf else b + 1),
      right = (if r = Tip then Leaf else b + 1 + int (size l))\<rparr>"
  obtain f where fuel: "fuel = Suc f" and f: "size l \<le> f" "size r \<le> f"
    using Fork.prems(2) by (cases fuel) auto
  have ns: "ns = pre @ nd # layout (b + 1) l @ layout (b + 1 + int (size l)) r @ post"
    using Fork.prems(1) by (simp add: nd_def b_def)
  have node: "ns ! length pre = nd" and inb: "in_bounds ns (int (length pre))"
    by (simp_all add: ns in_bounds_def)
  have "subtree_items f ns (if l = Tip then Leaf else int (length (pre @ [nd]))) = tree_items l"
    using f by (intro Fork.IH(1) [where post = "layout (b + 1 + int (size l)) r @ post"])
      (simp_all add: ns b_def ac_simps)
  then have L: "subtree_items f ns (left nd) = tree_items l"
    by (cases "l = Tip") (simp_all add: nd_def b_def ac_simps)
  have "subtree_items f ns (if r = Tip then Leaf else int (length (pre @ nd # layout (b + 1) l)))
        = tree_items r"
    using f by (intro Fork.IH(2) [where post = post]) (simp_all add: ns b_def ac_simps)
  then have R: "subtree_items f ns (right nd) = tree_items r"
    by (cases "r = Tip") (simp_all add: nd_def b_def ac_simps)
  show ?case
    by (simp add: fuel inb node L R) (simp add: nd_def)
qed

lemma layout_node:
  assumes "ns = pre @ layout (int (length pre)) t @ post"
    and "length pre \<le> i" "i < length pre + size t" and "vp_invariant d its t"
  shows "\<exists>pre' it th l r post'.
           ns = pre' @ layout (int (length pre')) (Fork it th l r) @ post'
           \<and> length pre' = i \<and> vp_invariant d its (Fork it th l r)"
  using assms
proof (induction t arbitrary: pre post)
  case Tip
  then show ?case by simp
next
  case (Fork it th l r)
  define b where "b = int (length pre)"
  define nd where "nd = \<lparr>item = it, threshold = th, left = (if l = Tip then Leaf else b + 1),
      right = (if r = Tip then Leaf else b + 1 + int (size l))\<rparr>"
  have ns: "ns = pre @ nd # layout (b + 1) l @ layout (b + 1 + int (size l)) r @ post"
    using Fork.prems(1) by (simp add: nd_def b_def)
  consider "i = length pre" | "length pre < i" "i < length pre + 1 + size l"
    | "length pre + 1 + size l \<le> i"
    using Fork.prems(2) by linarith
  then show ?case
  proof cases
    case 1
    then show ?thesis
      using Fork.prems(1,4) by blast
  next
    case 2
    have "\<exists>pre' it th l' r' post'.
           ns = pre' @ layout (int (length pre')) (Fork it th l' r') @ post'
           \<and> length pre' = i \<and> vp_invariant d its (Fork it th l' r')"
      using 2 Fork.prems(4)
      by (intro Fork.IH(1) [where pre = "pre @ [nd]"
            and post = "layout (b + 1 + int (size l)) r @ post"])
         (simp_all add: ns b_def ac_simps)
    then show ?thesis .
  next
    case 3
    have "\<exists>pre' it th l' r' post'.
           ns = pre' @ layout (int (length pre')) (Fork it th l' r') @ post'
           \<and> length pre' = i \<and> vp_invariant d its (Fork it th l' r')"
      using 3 Fork.prems(3,4)
      by (intro Fork.IH(2) [where pre = "pre @ nd # layout (b + 1) l" and post = post])
         (simp_all add: ns b_def ac_simps)
    then show ?thesis .
  qed
qed

lemma vp_invariant_nodes:
  assumes n: "ns = layout 0 T" and inv: "vp_invariant d its T"
    and i: "in_bounds ns i" and fuel: "size T \<le> fuel"
  shows "(\<forall>j\<in>set (subtree_items fuel ns (left (ns ! nat i))).
            d (fst (its ! nat (item (ns ! nat i)))) (fst (its ! nat j)) \<le> threshold (ns ! nat i))
       \<and> (\<forall>j\<in>set (subtree_items fuel ns (right (ns ! nat i))).
            threshold (ns ! nat i) \<le> d (fst (its ! nat (item (ns ! nat i)))) (fst (its ! nat j)))"
proof -
  have "ns = [] @ layout (int (length ([] :: Node list))) T @ []"
    by (simp add: n)
  moreover have "length ([] :: Node list) \<le> nat i" "nat i < length ([] :: Node list) + size T"
    using i by (auto simp: in_bounds_def n)
  ultimately obtain pre it th l r post where
    ns: "ns = pre @ layout (int (length pre)) (Fork it th l r) @ post"
    and len: "length pre = nat i" and vp: "vp_invariant d its (Fork it th l r)"
    using layout_node [OF _ _ _ inv] by blast
  define b where "b = int (length pre)"
  define nd where "nd = \<lparr>item = it, threshold = th, left = (if l = Tip then Leaf else b + 1),
      right = (if r = Tip then Leaf else b + 1 + int (size l))\<rparr>"
  have ns': "ns = pre @ nd # layout (b + 1) l @ layout (b + 1 + int (size l)) r @ post"
    using ns by (simp add: nd_def b_def)
  have node: "ns ! nat i = nd"
    by (simp add: ns' len [symmetric])
  have "length ns = size T"
    by (simp add: n)
  then have sz: "size l \<le> fuel" "size r \<le> fuel"
    using fuel arg_cong [OF ns', of length] by auto
  have "subtree_items fuel ns (if l = Tip then Leaf else int (length (pre @ [nd]))) = tree_items l"
    using sz by (intro subtree_items_layout [where post = "layout (b + 1 + int (size l)) r @ post"])
      (simp_all add: ns' b_def ac_simps)
  then have L: "subtree_items fuel ns (left nd) = tree_items l"
    by (cases "l = Tip") (simp_all add: nd_def b_def ac_simps)
  have "subtree_items fuel ns (if r = Tip then Leaf else int (length (pre @ nd # layout (b + 1) l)))
        = tree_items r"
    using sz by (intro subtree_items_layout [where post = post]) (simp_all add: ns' b_def ac_simps)
  then have R: "subtree_items fuel ns (right nd) = tree_items r"
    by (cases "r = Tip") (simp_all add: nd_def b_def ac_simps)
  show ?thesis
    unfolding node L R using vp by (simp add: nd_def)
qed

lemma makeTree_empty_range:
  "upper \<le> lower \<Longrightarrow> makeTree nth_element uni lower upper s = Inr (Leaf, s)"
  by (simp add: makeTree.simps)

text \<open>
  Claim C4. Whenever the constructor returns a tree over \<open>n\<close> items, the tree has
  exactly \<open>n\<close> nodes, the \<open>item\<close> fields of the nodes are \<open>0, \<dots>, n - 1\<close> in this order
  (every index in exactly one node), and all of them are reached from node \<open>0\<close>, the
  root. \<open>makeTree\<close> on an empty range returns \<open>Leaf\<close> and creates no node. The
  constructor returns a tree for every collection of at most \<open>2\<^sup>3\<^sup>0\<close> items, where the
  \<open>int\<close> arithmetic of the builder cannot overflow.
\<close>

theorem construction_one_node_per_item:
  assumes c: "nth_element_contract nth_element" "uniform_contract uni"
  shows "(length xs \<le> 2 ^ 30 \<longrightarrow> (\<exists>tree. VpTree_ctor nth_element uni seed xs metric = Inr tree))
       \<and> (\<forall>tree. VpTree_ctor nth_element uni seed xs metric = Inr tree \<longrightarrow>
              length (nodes tree) = length xs
              \<and> map item (nodes tree) = map int [0..<length xs]
              \<and> (\<forall>fuel\<ge>length xs.
                    subtree_items fuel (nodes tree) 0 = map int [0..<length xs]))
       \<and> (\<forall>lower upper s. upper \<le> lower \<longrightarrow>
              makeTree nth_element uni lower upper s = Inr (Leaf, s))"
proof (intro conjI allI impI)
  assume "length xs \<le> 2 ^ 30"
  then show "\<exists>tree. VpTree_ctor nth_element uni seed xs metric = Inr tree"
    by (rule VpTree_ctor_succeeds [OF c])
next
  fix tree assume t: "VpTree_ctor nth_element uni seed xs metric = Inr tree"
  from VpTree_ctor_built [OF c t] obtain T where
    n: "nodes tree = layout 0 T" and b: "built metric (items tree) 0 (length xs) T"
    by blast
  have sz: "size T = length xs"
    using built_size [OF b] by simp
  show "length (nodes tree) = length xs"
    by (simp add: n sz)
  show "map item (nodes tree) = map int [0..<length xs]"
    by (simp add: n layout_items built_items [OF b])
  fix fuel assume fuel: "length xs \<le> fuel"
  have "nodes tree = [] @ layout (int (length ([] :: Node list))) T @ []"
    by (simp add: n)
  from subtree_items_layout [OF this, of fuel] fuel
  have "subtree_items fuel (nodes tree) 0 = tree_items T" if "T \<noteq> Tip"
    using that by (simp add: sz)
  moreover have "subtree_items fuel (nodes tree) 0 = tree_items T" if "T = Tip"
    using that by (cases fuel) (simp_all add: n in_bounds_def)
  ultimately show "subtree_items fuel (nodes tree) 0 = map int [0..<length xs]"
    using built_items [OF b] by (cases "T = Tip") simp_all
next
  fix lower upper :: int and s :: "('a, 'b) VpTree"
  assume "upper \<le> lower"
  then show "makeTree nth_element uni lower upper s = Inr (Leaf, s)"
    by (rule makeTree_empty_range)
qed

theorem construction_one_node_per_item_witness:
  "nth_element_contract (nth_element_sort :: (int \<times> int \<Rightarrow> _) \<Rightarrow> _)
   \<and> uniform_contract uni_lower
   \<and> VpTree_ctor nth_element_sort uni_lower () [5, 1, 9, 3] abs_metric = Inr example_tree
   \<and> length (nodes example_tree) = 4
   \<and> map item (nodes example_tree) = [0, 1, 2, 3]
   \<and> subtree_items 4 (nodes example_tree) 0 = [0, 1, 2, 3]"
  using construction_one_node_per_item
          [OF nth_element_sort_contract uni_lower_contract, of "[5, 1, 9, 3]" "()" abs_metric]
        nth_element_sort_contract uni_lower_contract example_tree_constructed
  by (simp add: upt_rec)

text \<open>
  Claim C3. In every tree that the constructor returns, at every node, every item
  reached through the left child is at distance at most the node's threshold from the
  node's vantage point, and every item reached through the right child at distance at
  least the threshold.
\<close>

theorem construction_vp_invariant:
  assumes c: "nth_element_contract nth_element" "uniform_contract uni"
    and t: "VpTree_ctor nth_element uni seed xs metric = Inr tree"
    and fuel: "length xs \<le> fuel"
    and i: "in_bounds (nodes tree) i"
  shows "(\<forall>j\<in>set (subtree_items fuel (nodes tree) (left (nodes tree ! nat i))).
            getDistance tree (fst (items tree ! nat (item (nodes tree ! nat i))))
                             (fst (items tree ! nat j))
              \<le> threshold (nodes tree ! nat i))
       \<and> (\<forall>j\<in>set (subtree_items fuel (nodes tree) (right (nodes tree ! nat i))).
            threshold (nodes tree ! nat i)
              \<le> getDistance tree (fst (items tree ! nat (item (nodes tree ! nat i))))
                                 (fst (items tree ! nat j)))"
proof -
  from VpTree_ctor_built [OF c t] obtain T where
    n: "nodes tree = layout 0 T" and d: "getDistance tree = metric"
    and b: "built metric (items tree) 0 (length xs) T"
    by blast
  have "size T \<le> fuel"
    using built_size [OF b] fuel by simp
  from vp_invariant_nodes [OF n built_vp_invariant [OF b] i this] show ?thesis
    by (simp add: d)
qed

theorem construction_vp_invariant_witness:
  "nth_element_contract (nth_element_sort :: (int \<times> int \<Rightarrow> _) \<Rightarrow> _)
   \<and> uniform_contract uni_lower
   \<and> VpTree_ctor nth_element_sort uni_lower () [5, 1, 9, 3] abs_metric = Inr example_tree
   \<and> in_bounds (nodes example_tree) 0
   \<and> subtree_items 4 (nodes example_tree) (left (nodes example_tree ! nat 0)) = [1]
   \<and> subtree_items 4 (nodes example_tree) (right (nodes example_tree ! nat 0)) = [2, 3]
   \<and> list_all (\<lambda>j. abs_metric 5 (fst (items example_tree ! nat j))
                      \<le> threshold (nodes example_tree ! nat 0)) [1]
   \<and> list_all (\<lambda>j. threshold (nodes example_tree ! nat 0)
                      \<le> abs_metric 5 (fst (items example_tree ! nat j))) [2, 3]"
proof -
  have i: "in_bounds (nodes example_tree) 0"
    by (simp add: in_bounds_def example_tree_def)
  have l: "subtree_items 4 (nodes example_tree) (left (nodes example_tree ! nat 0)) = [1]"
    and r: "subtree_items 4 (nodes example_tree) (right (nodes example_tree ! nat 0)) = [2, 3]"
    by (simp_all add: example_tree_def in_bounds_def eval_nat_numeral)
  show ?thesis
    using construction_vp_invariant
            [OF nth_element_sort_contract uni_lower_contract example_tree_constructed _ i,
             of 4]
          nth_element_sort_contract uni_lower_contract example_tree_constructed i
    unfolding l r
    by (simp add: example_tree_def)
qed

text \<open>
  Claim C8. A call of \<open>makeTree\<close> on a range \<open>[l, u)\<close> of at least two items that returns
  has partitioned around the median \<open>(u + l) div 2\<close>: after \<open>selectRoot\<close> and
  \<open>partitionByDistance\<close> the range \<open>[l + 1, u)\<close> is permuted, every item of \<open>[l + 1, m)\<close> is
  at most as far from the item at \<open>l\<close> as every item of \<open>[m, u)\<close>, and the threshold of
  the node the call returns is the distance from the item at \<open>l\<close> to the item then at
  \<open>m\<close>.
\<close>

theorem makeTree_step_median_partition:
  fixes s :: "('a, 'g) VpTree"
  assumes c: "nth_element_contract nth_element" "uniform_contract uni"
    and lu: "Suc l < u" "u \<le> length (items s)"
    and run: "makeTree nth_element uni (int l) (int u) s = Inr (node, s')"
  shows "\<exists>s1 s2. selectRoot uni (int l) (int u) s = Inr s1
           \<and> partitionByDistance nth_element (int l) ((int u + int l) div 2) (int u) s1 = Inr s2
           \<and> frame (Suc l) u (items s1) (items s2)
           \<and> (\<forall>i j. Suc l \<le> i \<and> i < (u + l) div 2 \<and> (u + l) div 2 \<le> j \<and> j < u \<longrightarrow>
                 getDistance s (fst (items s2 ! l)) (fst (items s2 ! i))
                   \<le> getDistance s (fst (items s2 ! l)) (fst (items s2 ! j)))
           \<and> in_bounds (nodes s') node
           \<and> threshold (nodes s' ! nat node)
               = getDistance s (fst (items s2 ! l)) (fst (items s2 ! ((u + l) div 2)))"
proof -
  define m where "m = (u + l) div 2"
  have m: "Suc l \<le> m" "m < u" "(int u + int l) div 2 = int m"
    using lu by (auto simp: m_def zdiv_int)
  from makeTree_main [OF c, of l u s] lu run obtain t where
    node: "node = (if t = Tip then Leaf else int (length (nodes s)))"
    and nodes: "nodes s' = nodes s @ layout (int (length (nodes s))) t"
    and st: "step_threshold nth_element uni l u s t"
    by auto
  from st obtain s1 s2 tl tr where
    s1: "selectRoot uni (int l) (int u) s = Inr s1"
    and s2: "partitionByDistance nth_element (int l) (int m) (int u) s1 = Inr s2"
    and t: "t = Fork (int l) (getDistance s (fst (items s2 ! l)) (fst (items s2 ! m))) tl tr"
    unfolding step_threshold_def m(3) m_def by blast
  have f1: "frame l u (items s) (items s1)" and d1: "getDistance s1 = getDistance s"
    using selectRoot_frame [OF c(2), of l u s] lu s1 by auto
  have len1: "u \<le> length (items s1)"
    using frame_length [OF f1] lu by simp
  from partitionByDistance_frame [OF c(1) m(1,2) len1] s2 have
    f2: "frame (Suc l) u (items s1) (items s2)"
    and lo: "\<forall>p\<in>set (slice (Suc l) m (items s2)).
              getDistance s1 (fst (items s1 ! l)) (fst p)
                \<le> getDistance s1 (fst (items s1 ! l)) (fst (items s2 ! m))"
    and hi: "\<forall>p\<in>set (slice m u (items s2)).
              getDistance s1 (fst (items s1 ! l)) (fst (items s2 ! m))
                \<le> getDistance s1 (fst (items s1 ! l)) (fst p)"
    by auto
  have vp: "items s2 ! l = items s1 ! l"
    using f2 len1 lu by (intro frame_nth) auto
  have ord: "getDistance s (fst (items s2 ! l)) (fst (items s2 ! i))
               \<le> getDistance s (fst (items s2 ! l)) (fst (items s2 ! j))"
    if "Suc l \<le> i" "i < m" "m \<le> j" "j < u" for i j
  proof -
    have "items s2 ! i \<in> set (slice (Suc l) m (items s2))"
      "items s2 ! j \<in> set (slice m u (items s2))"
      using that by (auto simp: set_slice)
    then show ?thesis
      using lo hi unfolding vp d1 by (meson order_trans)
  qed
  have nd: "in_bounds (nodes s') node"
    "threshold (nodes s' ! nat node) = getDistance s (fst (items s2 ! l)) (fst (items s2 ! m))"
    by (simp_all add: node nodes t in_bounds_def)
  show ?thesis
    using s1 s2 f2 ord nd unfolding m(3) m_def [symmetric] by blast
qed

theorem makeTree_step_median_partition_witness:
  "nth_element_contract (nth_element_sort :: (int \<times> int \<Rightarrow> _) \<Rightarrow> _)
   \<and> uniform_contract uni_lower
   \<and> makeTree nth_element_sort uni_lower 0 4
        \<lparr>getDistance = abs_metric, items = [(5, 0), (1, 1), (9, 2), (3, 3)], nodes = [], rng = ()\<rparr>
       = Inr (0, example_tree)
   \<and> selectRoot uni_lower 0 4
        \<lparr>getDistance = abs_metric, items = [(5, 0), (1, 1), (9, 2), (3, 3)], nodes = [], rng = ()\<rparr>
       = Inr \<lparr>getDistance = abs_metric, items = [(5, 0), (1, 1), (9, 2), (3, 3)], nodes = [], rng = ()\<rparr>
   \<and> partitionByDistance nth_element_sort 0 2 4
        \<lparr>getDistance = abs_metric, items = [(5, 0), (1, 1), (9, 2), (3, 3)], nodes = [], rng = ()\<rparr>
       = Inr \<lparr>getDistance = abs_metric, items = [(5, 0), (3, 3), (9, 2), (1, 1)], nodes = [], rng = ()\<rparr>
   \<and> threshold (nodes example_tree ! 0) = abs_metric 5 9"
proof -
  let ?s = "\<lparr>getDistance = abs_metric, items = [(5, 0), (1, 1), (9, 2), (3, 3)],
             nodes = [], rng = ()\<rparr> :: (int, unit) VpTree"
  have run: "makeTree nth_element_sort uni_lower (int 0) (int 4) ?s = Inr (0, example_tree)"
    by (simp add: makeTree.simps selectRoot_def uni_lower_def
      in_bounds_def INT_MAX_def partitionByDistance_def nth_element_sort_def abs_metric_def
      makeNode_def Node_ctor_def Leaf_def Let_def example_tree_def)
  have sel: "selectRoot uni_lower 0 4 ?s = Inr ?s"
    by (simp add: selectRoot_def uni_lower_def in_bounds_def)
  have par: "partitionByDistance nth_element_sort 0 2 4 ?s
       = Inr \<lparr>getDistance = abs_metric, items = [(5, 0), (3, 3), (9, 2), (1, 1)], nodes = [], rng = ()\<rparr>"
    by (simp add: partitionByDistance_def nth_element_sort_def abs_metric_def Let_def)
  show ?thesis
    using makeTree_step_median_partition
            [OF nth_element_sort_contract uni_lower_contract _ _ run]
          nth_element_sort_contract uni_lower_contract run sel par
    by (simp add: abs_metric_def example_tree_def)
qed

subsection \<open>The search on a laid-out tree\<close>

lemma size_vptree_pos: "t \<noteq> Tip \<Longrightarrow> 0 < size t"
  by (cases t) auto

lemma layout_hd:
  "layout b (Fork it th l r) ! 0 =
     \<lparr>item = it, threshold = th, left = (if l = Tip then Leaf else b + 1),
      right = (if r = Tip then Leaf else b + 1 + int (size l))\<rparr>"
  by simp

lemma searchInNode_layout:
  assumes "nodes tree = pre @ layout (int (length pre)) t @ post"
    and "t \<noteq> Tip"
    and "\<forall>it\<in>set (tree_items t). in_bounds (items tree) it"
    and "size t \<le> fuel"
  shows "searchInNode fuel tree target k (nodes tree ! length pre) s
         = Some (searchT (getDistance tree) (items tree) target k t s)"
  using assms
proof (induction t arbitrary: pre post fuel s)
  case Tip
  then show ?case by simp
next
  case (Fork it th l r)
  define b where "b = int (length pre)"
  define nd where "nd = \<lparr>item = it, threshold = th, left = (if l = Tip then Leaf else b + 1),
      right = (if r = Tip then Leaf else b + 1 + int (size l))\<rparr>"
  obtain f where fuel: "fuel = Suc f" and f: "size l \<le> f" "size r \<le> f"
    using Fork.prems(4) by (cases fuel) auto
  have nodes: "nodes tree = pre @ nd # layout (b + 1) l @ layout (b + 1 + int (size l)) r @ post"
    using Fork.prems(1) by (simp add: nd_def b_def)
  have node: "nodes tree ! length pre = nd"
    by (simp add: nodes)
  have it: "vec_at (items tree) it = Inr (items tree ! nat it)"
    using Fork.prems(3) by (simp add: vec_at_def)
  have L: "(case vec_at (nodes tree) (left nd) of
              Inl e \<Rightarrow> Some (Inl e)
            | Inr n \<Rightarrow> searchInNode f tree target k n s')
           = Some (searchT (getDistance tree) (items tree) target k l s')"
    if "l \<noteq> Tip" for s'
  proof -
    have "0 < size l"
      using that by (rule size_vptree_pos)
    then have "vec_at (nodes tree) (left nd) = Inr (nodes tree ! length (pre @ [nd]))"
      using that by (simp add: vec_at_def in_bounds_def nd_def b_def nodes nat_add_distrib)
    moreover have "searchInNode f tree target k (nodes tree ! length (pre @ [nd])) s'
             = Some (searchT (getDistance tree) (items tree) target k l s')"
      using that Fork.prems(3) f
      by (intro Fork.IH(1) [where post = "layout (b + 1 + int (size l)) r @ post"])
         (simp_all add: nodes b_def ac_simps)
    ultimately show ?thesis by simp
  qed
  have R: "(case vec_at (nodes tree) (right nd) of
              Inl e \<Rightarrow> Some (Inl e)
            | Inr n \<Rightarrow> searchInNode f tree target k n s')
           = Some (searchT (getDistance tree) (items tree) target k r s')"
    if "r \<noteq> Tip" for s'
  proof -
    have "0 < size r"
      using that by (rule size_vptree_pos)
    then have "vec_at (nodes tree) (right nd)
                 = Inr (nodes tree ! length (pre @ nd # layout (b + 1) l))"
      using that
      by (simp add: vec_at_def in_bounds_def nd_def b_def nodes nat_add_distrib)
    moreover have
      "searchInNode f tree target k (nodes tree ! length (pre @ nd # layout (b + 1) l)) s'
             = Some (searchT (getDistance tree) (items tree) target k r s')"
      using that Fork.prems(3) f
      by (intro Fork.IH(2) [where post = post]) (simp_all add: nodes b_def ac_simps)
    ultimately show ?thesis by simp
  qed
  have lf: "left nd \<noteq> Leaf \<longleftrightarrow> l \<noteq> Tip" and rf: "right nd \<noteq> Leaf \<longleftrightarrow> r \<noteq> Tip"
    by (auto simp: nd_def Leaf_def b_def)
  have fld: "item nd = it" "threshold nd = th"
    by (simp_all add: nd_def)
  show ?case
    unfolding node fuel
    by (auto simp: it fld lf rf L R Let_def split: sum.splits)
qed

lemma search_loop_eq:
  "\<forall>h\<in>set hp. in_bounds (items tree) (h_item h) \<Longrightarrow>
   search_loop tree hp acc = Inr (acc @ map (mkResult tree) (rev hp))"
proof (induction hp arbitrary: acc rule: rev_induct)
  case Nil
  then show ?case by (simp add: search_loop.simps)
next
  case (snoc x hp)
  have "search_loop tree (hp @ [x]) acc = search_loop tree hp (acc @ [mkResult tree x])"
    using snoc.prems
    by (subst search_loop.simps) (simp add: pq_top_def pq_pop_def vec_at_def mkResult_def Let_def)
  then show ?case
    using snoc by simp
qed

lemma searchT_invariant:
  assumes "searchT d its target k t s = Inr s'" and "P s"
    and "\<And>it s s1. it \<in> set (tree_items t) \<Longrightarrow> P s \<Longrightarrow>
            admit k it (d (fst (its ! nat it)) target) s = Inr s1 \<Longrightarrow> P s1"
  shows "P s'"
  using assms
proof (induction t arbitrary: s s')
  case Tip
  then show ?case by simp
next
  case (Fork it th l r)
  have stepl: "P b"
    if "P a" "(if l \<noteq> Tip \<and> c then searchT d its target k l a else Inr a) = Inr b" for a b c
  proof (cases "l \<noteq> Tip \<and> c")
    case True
    then have "searchT d its target k l a = Inr b"
      using that(2) by simp
    then show ?thesis
      using that(1) Fork.prems(3) by (intro Fork.IH(1) [of a b]) auto
  next
    case False
    then have "a = b" using that(2) by auto
    then show ?thesis using that(1) by simp
  qed
  have stepr: "P b"
    if "P a" "(if r \<noteq> Tip \<and> c then searchT d its target k r a else Inr a) = Inr b" for a b c
  proof (cases "r \<noteq> Tip \<and> c")
    case True
    then have "searchT d its target k r a = Inr b"
      using that(2) by simp
    then show ?thesis
      using that(1) Fork.prems(3) by (intro Fork.IH(2) [of a b]) auto
  next
    case False
    then have "a = b" using that(2) by auto
    then show ?thesis using that(1) by simp
  qed
  define x where "x = d (fst (its ! nat it)) target"
  from Fork.prems(1) obtain s1 where s1: "admit k it x s = Inr s1"
    by (auto simp: x_def split: sum.splits)
  have p1: "P s1"
    using Fork.prems(3) [of it s s1] Fork.prems(2) s1 by (simp add: x_def)
  show ?case
  proof (cases "x < th")
    case True
    with Fork.prems(1) s1 obtain s2 where
      a: "(if l \<noteq> Tip \<and> x - tau s1 \<le> th then searchT d its target k l s1 else Inr s1) = Inr s2"
      and b: "(if r \<noteq> Tip \<and> x + tau s2 \<ge> th then searchT d its target k r s2 else Inr s2) = Inr s'"
      unfolding searchT.simps x_def [symmetric] by (simp split: sum.splits)
    from p1 a have "P s2" by (rule stepl)
    then show ?thesis using b by (rule stepr)
  next
    case False
    with Fork.prems(1) s1 obtain s2 where
      a: "(if r \<noteq> Tip \<and> x + tau s1 \<ge> th then searchT d its target k r s1 else Inr s1) = Inr s2"
      and b: "(if l \<noteq> Tip \<and> x - tau s2 \<le> th then searchT d its target k l s2 else Inr s2) = Inr s'"
      unfolding searchT.simps x_def [symmetric] by (simp split: sum.splits)
    from p1 a have "P s2" by (rule stepr)
    then show ?thesis using b by (rule stepl)
  qed
qed

lemma admit_set:
  "admit k it x s = Inr s1 \<Longrightarrow> set (heap s1) \<subseteq> insert \<lparr>h_item = it, h_dist = x\<rparr> (set (heap s))"
  by (auto simp: admit_def pq_pop_def pq_push_def set_insort_key Let_def
      split: if_splits dest: in_set_butlastD)

lemma admit_sorted:
  "admit k it x s = Inr s1 \<Longrightarrow> sorted (map h_dist (heap s)) \<Longrightarrow> sorted (map h_dist (heap s1))"
  by (auto simp: admit_def pq_pop_def pq_push_def Let_def sorted_insort_key map_butlast
      sorted_butlast split: if_splits)

lemma searchT_sorted:
  assumes "searchT d its target k t s = Inr s'" "sorted (map h_dist (heap s))"
  shows "sorted (map h_dist (heap s'))"
  using assms(1,2) by (rule searchT_invariant) (rule admit_sorted)

lemma searchT_members:
  assumes "searchT d its target k t s = Inr s'"
  shows "set (heap s') \<subseteq> set (heap s) \<union> cand d its target ` set (tree_items t)"
proof -
  define X where "X = set (heap s) \<union> cand d its target ` set (tree_items t)"
  have "set (heap s') \<subseteq> X"
    using assms
  proof (rule searchT_invariant)
    show "set (heap s) \<subseteq> X" by (simp add: X_def)
  next
    fix it a b assume "it \<in> set (tree_items t)" "set (heap a) \<subseteq> X"
      "admit k it (d (fst (its ! nat it)) target) a = Inr b"
    then show "set (heap b) \<subseteq> X"
      using admit_set [of k it "d (fst (its ! nat it)) target" a b]
      by (auto simp: X_def cand_def)
  qed
  then show ?thesis by (simp add: X_def)
qed

lemma DBL_MAX_pos: "0 < DBL_MAX"
  by (simp add: DBL_MAX_def)

lemma admit_run:
  assumes k: "k \<noteq> 0" and x: "0 \<le> x" "x < DBL_MAX" and inv: "searcher_inv k s"
  shows "\<exists>s1. admit k it x s = Inr s1 \<and> searcher_inv k s1
           \<and> length (heap s1) = result_count k (length (heap s) + 1)
           \<and> ((k < 0 \<or> int (length (heap s)) + 1 \<le> k) \<longrightarrow>
                 mset (heap s1) = add_mset \<lparr>h_item = it, h_dist = x\<rparr> (mset (heap s)))"
proof (cases "int (length (heap s)) = k")
  case True
  then have ne: "heap s \<noteq> []" using k by auto
  show ?thesis
    using True ne k
    by (auto simp: admit_def pq_pop_def pq_push_def Let_def searcher_inv_def result_count_def)
next
  case False
  with inv have t: "tau s = DBL_MAX" and lt: "k < 0 \<or> int (length (heap s)) < k"
    by (auto simp: searcher_inv_def)
  show ?thesis
    using False t lt x
    by (auto simp: admit_def pq_pop_def pq_push_def Let_def searcher_inv_def result_count_def)
qed

lemma visit_run:
  assumes k: "k \<noteq> 0" and inv: "searcher_inv k s"
    and cnd: "int (length (heap s)) \<noteq> k \<longrightarrow> cnd"
    and ih: "c \<noteq> Tip \<Longrightarrow> \<exists>s'. searchT d its target k c s = Inr s' \<and> run_ok d its target k c s s'"
  shows "\<exists>s'. (if c \<noteq> Tip \<and> cnd then searchT d its target k c s else Inr s) = Inr s'
           \<and> run_ok d its target k c s s'"
proof (cases "c \<noteq> Tip \<and> cnd")
  case True
  then show ?thesis using ih by simp
next
  case False
  have "run_ok d its target k c s s"
  proof (cases "c = Tip")
    case True
    then show ?thesis
      using inv by (auto simp: run_ok_def result_count_def searcher_inv_def)
  next
    case c: False
    then have "int (length (heap s)) = k" "0 < size c"
      using False cnd size_vptree_pos by auto
    then show ?thesis
      using inv by (auto simp: run_ok_def result_count_def)
  qed
  then show ?thesis using False by auto
qed

lemma result_count_add: "result_count k (result_count k a + b) = result_count k (a + b)"
  by (auto simp: result_count_def)

lemma run_ok_trans:
  assumes "run_ok d its target k t1 s s1" "run_ok d its target k t2 s1 s2"
    and "size t = size t1 + size t2"
    and "mset (tree_items t) = mset (tree_items t1) + mset (tree_items t2)"
  shows "run_ok d its target k t s s2"
proof -
  have len: "length (heap s2) = result_count k (length (heap s) + size t)"
    using assms(1,2,3) by (simp add: run_ok_def result_count_add add.assoc)
  have ms: "mset (heap s2) = mset (heap s) + mset (map (cand d its target) (tree_items t))"
    if "k < 0 \<or> int (length (heap s) + size t) \<le> k"
  proof -
    have 1: "k < 0 \<or> int (length (heap s) + size t1) \<le> k"
      using that assms(3) by auto
    then have l1: "length (heap s1) = length (heap s) + size t1"
      using assms(1) by (auto simp: run_ok_def result_count_def)
    have 2: "k < 0 \<or> int (length (heap s1) + size t2) \<le> k"
      using that assms(3) l1 by auto
    have m1: "mset (heap s1) = mset (heap s) + mset (map (cand d its target) (tree_items t1))"
      using assms(1) 1 unfolding run_ok_def by blast
    have m2: "mset (heap s2) = mset (heap s1) + mset (map (cand d its target) (tree_items t2))"
      using assms(2) 2 unfolding run_ok_def by blast
    have "mset (map (cand d its target) (tree_items t))
          = mset (map (cand d its target) (tree_items t1))
            + mset (map (cand d its target) (tree_items t2))"
      using assms(4) by (metis image_mset_union mset_map)
    then show ?thesis
      by (simp add: m1 m2)
  qed
  show ?thesis
    using assms(2) len ms by (simp add: run_ok_def)
qed

lemma run_ok_Tip: "searcher_inv k s \<Longrightarrow> run_ok d its target k Tip s s"
  by (auto simp: run_ok_def result_count_def searcher_inv_def)

lemma searchT_run:
  assumes k: "k \<noteq> 0"
  shows "\<forall>th\<in>set (thresholds t). 0 \<le> th \<and> th < DBL_MAX \<Longrightarrow>
     \<forall>it\<in>set (tree_items t). 0 \<le> d (fst (its ! nat it)) target
                               \<and> d (fst (its ! nat it)) target < DBL_MAX \<Longrightarrow>
     searcher_inv k s \<Longrightarrow>
     \<exists>s'. searchT d its target k t s = Inr s' \<and> run_ok d its target k t s s'"
proof (induction t arbitrary: s)
  case Tip
  then show ?case by (simp add: run_ok_Tip)
next
  case (Fork it th l r)
  define x where "x = d (fst (its ! nat it)) target"
  have x: "0 \<le> x" "x < DBL_MAX" and th: "0 \<le> th" "th < DBL_MAX"
    using Fork.prems(1,2) by (simp_all add: x_def)
  from admit_run [OF k x Fork.prems(3), of it] obtain s1 where
    s1: "admit k it x s = Inr s1" and inv1: "searcher_inv k s1"
    and len1: "length (heap s1) = result_count k (length (heap s) + 1)"
    and ms1: "(k < 0 \<or> int (length (heap s)) + 1 \<le> k) \<longrightarrow>
                 mset (heap s1) = add_mset \<lparr>h_item = it, h_dist = x\<rparr> (mset (heap s))"
    by blast
  have a0: "run_ok d its target k (Fork it th Tip Tip) s s1"
    using inv1 len1 ms1 by (simp add: run_ok_def cand_def x_def)
  have cl: "int (length (heap a)) \<noteq> k \<longrightarrow> x - tau a \<le> th" if "searcher_inv k a" for a
    using that x th by (auto simp: searcher_inv_def)
  have cr: "int (length (heap a)) \<noteq> k \<longrightarrow> th \<le> x + tau a" if "searcher_inv k a" for a
    using that x th by (auto simp: searcher_inv_def)
  have ihl: "\<exists>s'. searchT d its target k l a = Inr s' \<and> run_ok d its target k l a s'"
    if "searcher_inv k a" for a
    using Fork.prems(1,2) that by (intro Fork.IH(1)) auto
  have ihr: "\<exists>s'. searchT d its target k r a = Inr s' \<and> run_ok d its target k r a s'"
    if "searcher_inv k a" for a
    using Fork.prems(1,2) that by (intro Fork.IH(2)) auto
  have vl: "\<exists>s'. (if l \<noteq> Tip \<and> x - tau a \<le> th then searchT d its target k l a else Inr a) = Inr s'
              \<and> run_ok d its target k l a s'" if "searcher_inv k a" for a
    using k that cl [OF that] ihl [OF that] by (intro visit_run) auto
  have vr: "\<exists>s'. (if r \<noteq> Tip \<and> th \<le> x + tau a then searchT d its target k r a else Inr a) = Inr s'
              \<and> run_ok d its target k r a s'" if "searcher_inv k a" for a
    using k that cr [OF that] ihr [OF that] by (intro visit_run) auto
  show ?case
  proof (cases "x < th")
    case True
    from vl [OF inv1] obtain s2 where
      e2: "(if l \<noteq> Tip \<and> x - tau s1 \<le> th then searchT d its target k l s1 else Inr s1) = Inr s2"
      and r2: "run_ok d its target k l s1 s2"
      by blast
    have inv2: "searcher_inv k s2"
      using r2 by (simp add: run_ok_def)
    from vr [OF inv2] obtain s3 where
      e3: "(if r \<noteq> Tip \<and> th \<le> x + tau s2 then searchT d its target k r s2 else Inr s2) = Inr s3"
      and r3: "run_ok d its target k r s2 s3"
      by blast
    have "run_ok d its target k (Fork it th l Tip) s s2"
      using a0 r2 by (rule run_ok_trans) simp_all
    then have "run_ok d its target k (Fork it th l r) s s3"
      using r3 by (rule run_ok_trans) simp_all
    moreover have "searchT d its target k (Fork it th l r) s = Inr s3"
      using True s1 e2 e3 unfolding searchT.simps x_def [symmetric] by simp
    ultimately show ?thesis by blast
  next
    case False
    from vr [OF inv1] obtain s2 where
      e2: "(if r \<noteq> Tip \<and> th \<le> x + tau s1 then searchT d its target k r s1 else Inr s1) = Inr s2"
      and r2: "run_ok d its target k r s1 s2"
      by blast
    have inv2: "searcher_inv k s2"
      using r2 by (simp add: run_ok_def)
    from vl [OF inv2] obtain s3 where
      e3: "(if l \<noteq> Tip \<and> x - tau s2 \<le> th then searchT d its target k l s2 else Inr s2) = Inr s3"
      and r3: "run_ok d its target k l s2 s3"
      by blast
    have "run_ok d its target k (Fork it th Tip r) s s2"
      using a0 r2 by (rule run_ok_trans) simp_all
    then have "run_ok d its target k (Fork it th l r) s s3"
      using r3 by (rule run_ok_trans) simp_all
    moreover have "searchT d its target k (Fork it th l r) s = Inr s3"
      using False s1 e2 e3 unfolding searchT.simps x_def [symmetric] by simp
    ultimately show ?thesis by blast
  qed
qed

lemma items_constructed:
  assumes f: "frame 0 (length xs) (indexed xs) its"
  shows "length its = length xs"
    and "i < length xs \<Longrightarrow> \<exists>j<length xs. its ! i = (xs ! j, int j)"
    and "mset its = mset (indexed xs)"
proof -
  show len: "length its = length xs"
    using frame_length [OF f] by simp
  show ms: "mset its = mset (indexed xs)"
    using f by (rule frame_mset_whole) simp_all
  assume "i < length xs"
  then have "its ! i \<in> set its"
    using len by simp
  then have "its ! i \<in> set (indexed xs)"
    using ms by (metis mset_eq_setD)
  then show "\<exists>j<length xs. its ! i = (xs ! j, int j)"
    by (simp add: in_indexed)
qed

lemma getNearestNeighbors_constructed:
  assumes c: "nth_element_contract nth_element" "uniform_contract uni"
    and t: "VpTree_ctor nth_element uni seed xs metric = Inr tree"
    and ne: "xs \<noteq> []"
  shows "\<exists>T. T \<noteq> Tip \<and> nodes tree = layout 0 T
           \<and> built metric (items tree) 0 (length xs) T
           \<and> (\<forall>fuel target k. length xs \<le> fuel \<longrightarrow>
                 getNearestNeighbors fuel tree target k =
                   Some (case searchT metric (items tree) target k T Searcher_ctor of
                           Inl e \<Rightarrow> Inl e
                         | Inr s \<Rightarrow> Inr (map (mkResult tree) (heap s))))"
proof -
  from VpTree_ctor_built [OF c t] obtain T where
    n: "nodes tree = layout 0 T" and d: "getDistance tree = metric"
    and f: "frame 0 (length xs) (indexed xs) (items tree)"
    and b: "built metric (items tree) 0 (length xs) T"
    by blast
  have sz: "size T = length xs"
    using built_size [OF b] by simp
  then have T: "T \<noteq> Tip"
    using ne by auto
  have its: "tree_items T = map int [0..<length xs]"
    by (rule built_items [OF b])
  have len: "length (items tree) = length xs"
    by (rule items_constructed(1) [OF f])
  have inb: "\<forall>it\<in>set (tree_items T). in_bounds (items tree) it"
    by (auto simp: its in_bounds_def len)
  have root: "VpTree_root tree = Inr (nodes tree ! 0)"
    using sz ne by (simp add: VpTree_root_def vec_at_def in_bounds_def n)
  have lay: "nodes tree = [] @ layout (int (length ([] :: Node list))) T @ []"
    by (simp add: n)
  have loop: "search_loop tree (heap s) [] = Inr (map (mkResult tree) (rev (heap s)))"
    if "searchT metric (items tree) target k T Searcher_ctor = Inr s" for s target k
  proof -
    have "set (heap s) \<subseteq> cand metric (items tree) target ` set (tree_items T)"
      using searchT_members [OF that] by (simp add: Searcher_ctor_def)
    then have "\<forall>h\<in>set (heap s). in_bounds (items tree) (h_item h)"
      using inb by (auto simp: cand_def)
    then show ?thesis
      using search_loop_eq [of "heap s" tree "[]"] by simp
  qed
  have "getNearestNeighbors fuel tree target k =
          Some (case searchT metric (items tree) target k T Searcher_ctor of
                  Inl e \<Rightarrow> Inl e
                | Inr s \<Rightarrow> Inr (map (mkResult tree) (heap s)))"
    if fuel: "length xs \<le> fuel" for fuel target k
  proof -
    from searchInNode_layout [OF lay T inb, of fuel target k Searcher_ctor] fuel
    have run: "searchInNode fuel tree target k (nodes tree ! 0) Searcher_ctor
               = Some (searchT metric (items tree) target k T Searcher_ctor)"
      by (simp add: sz d)
    show ?thesis
      by (simp add: getNearestNeighbors_def search_def root run loop rev_map
          split: sum.split)
  qed
  then show ?thesis
    using T n b by blast
qed

lemma built_thresholds:
  assumes "built d its l u t" and "u \<le> length its"
    and "\<forall>i<length its. \<forall>j<length its.
           0 \<le> d (fst (its ! i)) (fst (its ! j)) \<and> d (fst (its ! i)) (fst (its ! j)) < DBL_MAX"
  shows "\<forall>th\<in>set (thresholds t). 0 \<le> th \<and> th < DBL_MAX"
  using assms
proof (induction t arbitrary: l u)
  case Tip
  then show ?case by simp
next
  case (Fork it th lt rt)
  from Fork.prems(1) have bl: "built d its (Suc l) (Suc l + size lt) lt"
    and br: "built d its (Suc l + size lt) u rt" and lu: "l < u"
    and thr: "th = 0 \<or> (\<exists>p\<in>set (slice (Suc l) u its). th = d (fst (its ! l)) (fst p))"
    by auto
  have u: "u = Suc l + size lt + size rt"
    using built_size [OF br] by simp
  have "\<forall>th\<in>set (thresholds lt). 0 \<le> th \<and> th < DBL_MAX"
    using Fork.prems(2,3) u by (intro Fork.IH(1) [OF bl]) auto
  moreover have "\<forall>th\<in>set (thresholds rt). 0 \<le> th \<and> th < DBL_MAX"
    using Fork.prems(2,3) by (intro Fork.IH(2) [OF br]) auto
  moreover have "0 \<le> th \<and> th < DBL_MAX"
    using thr
  proof
    assume "th = 0"
    then show ?thesis by (simp add: DBL_MAX_pos)
  next
    assume "\<exists>p\<in>set (slice (Suc l) u its). th = d (fst (its ! l)) (fst p)"
    then obtain j where "Suc l \<le> j" "j < u" "th = d (fst (its ! l)) (fst (its ! j))"
      by (auto simp: set_slice)
    then show ?thesis
      using Fork.prems(2,3) lu by auto
  qed
  ultimately show ?case by auto
qed

subsection \<open>Queries on a constructed tree\<close>





lemma constructed_bounds:
  assumes f: "frame 0 (length xs) (indexed xs) its"
    and b: "built metric its 0 (length xs) T"
    and bd: "\<forall>x\<in>set xs. \<forall>y\<in>set xs. 0 \<le> metric x y \<and> metric x y < DBL_MAX"
    and bt: "\<forall>x\<in>set xs. 0 \<le> metric x target \<and> metric x target < DBL_MAX"
  shows "\<forall>th\<in>set (thresholds T). 0 \<le> th \<and> th < DBL_MAX"
    and "\<forall>it\<in>set (tree_items T). 0 \<le> metric (fst (its ! nat it)) target
                                    \<and> metric (fst (its ! nat it)) target < DBL_MAX"
proof -
  have len: "length its = length xs"
    by (rule items_constructed(1) [OF f])
  have mem: "fst (its ! i) \<in> set xs" if "i < length xs" for i
    using items_constructed(2) [OF f that] by auto
  have "\<forall>i<length its. \<forall>j<length its.
           0 \<le> metric (fst (its ! i)) (fst (its ! j)) \<and> metric (fst (its ! i)) (fst (its ! j)) < DBL_MAX"
    using bd mem by (simp add: len)
  then show "\<forall>th\<in>set (thresholds T). 0 \<le> th \<and> th < DBL_MAX"
    using b len by (intro built_thresholds [OF b]) auto
  show "\<forall>it\<in>set (tree_items T). 0 \<le> metric (fst (its ! nat it)) target
                                    \<and> metric (fst (its ! nat it)) target < DBL_MAX"
    using bt mem by (auto simp: built_items [OF b])
qed

lemma searcher_inv_ctor: "k \<noteq> 0 \<Longrightarrow> searcher_inv k Searcher_ctor"
  by (auto simp: searcher_inv_def Searcher_ctor_def)

lemma query_run:
  assumes c: "nth_element_contract nth_element" "uniform_contract uni"
    and t: "VpTree_ctor nth_element uni seed xs metric = Inr tree"
    and ne: "xs \<noteq> []" and fuel: "length xs \<le> fuel" and k: "k \<noteq> 0"
    and bd: "\<forall>x\<in>set xs. \<forall>y\<in>set xs. 0 \<le> metric x y \<and> metric x y < DBL_MAX"
    and bt: "\<forall>x\<in>set xs. 0 \<le> metric x target \<and> metric x target < DBL_MAX"
  shows "\<exists>hp. getNearestNeighbors fuel tree target k = Some (Inr (map (mkResult tree) hp))
           \<and> sorted (map h_dist hp)
           \<and> length hp = result_count k (length xs)
           \<and> ((k < 0 \<or> int (length xs) \<le> k) \<longrightarrow>
                 mset hp = mset (map (cand metric (items tree) target) (map int [0..<length xs])))"
proof -
  from VpTree_ctor_built [OF c t] obtain T0 where
    f: "frame 0 (length xs) (indexed xs) (items tree)"
    and "built metric (items tree) 0 (length xs) T0"
    by blast
  from getNearestNeighbors_constructed [OF c t ne] fuel obtain T where
    b: "built metric (items tree) 0 (length xs) T"
    and q: "getNearestNeighbors fuel tree target k =
              Some (case searchT metric (items tree) target k T Searcher_ctor of
                      Inl e \<Rightarrow> Inl e
                    | Inr s \<Rightarrow> Inr (map (mkResult tree) (heap s)))"
    by blast
  have "\<exists>s'. searchT metric (items tree) target k T Searcher_ctor = Inr s'
          \<and> run_ok metric (items tree) target k T Searcher_ctor s'"
    by (intro searchT_run [OF k] constructed_bounds [OF f b bd bt] searcher_inv_ctor [OF k])
  then obtain s' where
    run: "searchT metric (items tree) target k T Searcher_ctor = Inr s'"
    and ok: "run_ok metric (items tree) target k T Searcher_ctor s'"
    by blast
  have "sorted (map h_dist (heap s'))"
    using run by (rule searchT_sorted) (simp add: Searcher_ctor_def)
  moreover have "size T = length xs"
    using built_size [OF b] by simp
  ultimately show ?thesis
    using q ok unfolding run
    by (intro exI [of _ "heap s'"]) (simp add: run_ok_def Searcher_ctor_def built_items [OF b])
qed

lemma dist_mkResult [simp]: "dist (mkResult tree h) = h_dist h"
  by (simp add: mkResult_def)

lemma all_results:
  assumes f: "frame 0 (length xs) (indexed xs) (items tree)"
    and hp: "mset hp = mset (map (cand metric (items tree) target) (map int [0..<length xs]))"
  shows "mset (map (\<lambda>r. (deref tree r, index r, dist r)) (map (mkResult tree) hp))
         = mset (map (\<lambda>j. (xs ! j, int j, metric (xs ! j) target)) [0..<length xs])"
    and "mset (map dist (map (mkResult tree) hp)) = mset (map (\<lambda>x. metric x target) xs)"
proof -
  define its where "its = items tree"
  define G where "G = (\<lambda>p :: 'a \<times> int. (fst p, snd p, metric (fst p) target))"
  define F where "F = (\<lambda>h :: HeapItem. (fst (its ! nat (h_item h)), snd (its ! nat (h_item h)), h_dist h))"
  have len: "length its = length xs" and ms: "mset its = mset (indexed xs)"
    using items_constructed(1,3) [OF f] by (simp_all add: its_def)
  have FG: "F (cand metric its target (int i)) = G (its ! i)" for i
    by (simp add: F_def G_def cand_def)
  have "(\<lambda>r. (deref tree r, index r, dist r)) \<circ> mkResult tree = F"
    by (simp add: fun_eq_iff F_def mkResult_def deref_def its_def)
  then have "mset (map (\<lambda>r. (deref tree r, index r, dist r)) (map (mkResult tree) hp))
             = image_mset F (mset hp)"
    by simp
  also have "\<dots> = mset (map (\<lambda>i. G (its ! i)) [0..<length xs])"
    unfolding hp its_def [symmetric] by (simp add: multiset.map_comp comp_def FG)
  also have "\<dots> = mset (map G (map ((!) its) [0..<length its]))"
    by (simp add: len comp_def)
  also have "\<dots> = image_mset G (mset (indexed xs))"
    by (simp only: map_nth mset_map ms)
  also have "\<dots> = mset (map (\<lambda>j. (xs ! j, int j, metric (xs ! j) target)) [0..<length xs])"
    by (simp add: indexed_def G_def multiset.map_comp comp_def)
  finally show a: "mset (map (\<lambda>r. (deref tree r, index r, dist r)) (map (mkResult tree) hp))
         = mset (map (\<lambda>j. (xs ! j, int j, metric (xs ! j) target)) [0..<length xs])" .
  have "mset (map dist (map (mkResult tree) hp))
        = image_mset (\<lambda>t. snd (snd t))
            (mset (map (\<lambda>r. (deref tree r, index r, dist r)) (map (mkResult tree) hp)))"
    by (simp add: multiset.map_comp comp_def)
  also have "\<dots> = mset (map (\<lambda>j. metric (xs ! j) target) [0..<length xs])"
    unfolding a by (simp add: multiset.map_comp comp_def)
  also have "\<dots> = mset (map (\<lambda>x. metric x target) (map ((!) xs) [0..<length xs]))"
    by (simp add: comp_def)
  finally show "mset (map dist (map (mkResult tree) hp)) = mset (map (\<lambda>x. metric x target) xs)"
    by (simp only: map_nth)
qed

lemma query_all:
  assumes c: "nth_element_contract nth_element" "uniform_contract uni"
    and t: "VpTree_ctor nth_element uni seed xs metric = Inr tree"
    and ne: "xs \<noteq> []" and fuel: "length xs \<le> fuel"
    and k: "k < 0 \<or> int (length xs) \<le> k"
    and bd: "\<forall>x\<in>set xs. \<forall>y\<in>set xs. 0 \<le> metric x y \<and> metric x y < DBL_MAX"
    and bt: "\<forall>x\<in>set xs. 0 \<le> metric x target \<and> metric x target < DBL_MAX"
  shows "\<exists>rs. getNearestNeighbors fuel tree target k = Some (Inr rs)
           \<and> map dist rs = sort (map (\<lambda>x. metric x target) xs)
           \<and> mset (map (\<lambda>r. (deref tree r, index r, dist r)) rs)
               = mset (map (\<lambda>j. (xs ! j, int j, metric (xs ! j) target)) [0..<length xs])"
proof -
  have k0: "k \<noteq> 0" using k ne by auto
  from VpTree_ctor_built [OF c t] have
    f: "frame 0 (length xs) (indexed xs) (items tree)"
    by blast
  from query_run [OF c t ne fuel k0 bd bt] k obtain hp where
    q: "getNearestNeighbors fuel tree target k = Some (Inr (map (mkResult tree) hp))"
    and srt: "sorted (map h_dist hp)"
    and hp: "mset hp = mset (map (cand metric (items tree) target) (map int [0..<length xs]))"
    by blast
  have "sorted (map dist (map (mkResult tree) hp))"
    using srt by (simp add: comp_def)
  then have "sort (map (\<lambda>x. metric x target) xs) = map dist (map (mkResult tree) hp)"
    using all_results(2) [OF f hp] by (intro properties_for_sort) simp_all
  then show ?thesis
    using q all_results(1) [OF f hp] by (intro exI [of _ "map (mkResult tree) hp"]) simp
qed

subsection \<open>The examples\<close>

lemmas ctor_eval =
  VpTree_ctor_def makeItems_def makeTree.simps selectRoot_def uni_lower_def
  in_bounds_def INT_MAX_def partitionByDistance_def nth_element_sort_def
  makeNode_def Node_ctor_def Leaf_def Let_def

lemmas query_eval =
  getNearestNeighbors_def search_def VpTree_root_def vec_at_def in_bounds_def
  example_tree_def abs_metric_def admit_def pq_push_def pq_pop_def pq_top_def
  Searcher_ctor_def DBL_MAX_def Leaf_def search_loop.simps Let_def


lemma example_bounds:
  "\<forall>x\<in>set [5, 1, 9, 3]. \<forall>y\<in>set [5, 1, 9, 3]. 0 \<le> abs_metric x y \<and> abs_metric x y < DBL_MAX"
  "\<forall>x\<in>set [5, 1, 9, 3]. 0 \<le> abs_metric x 4 \<and> abs_metric x 4 < DBL_MAX"
  by (simp_all add: abs_metric_def DBL_MAX_def)

lemma far_metric_is_metric:
  "0 \<le> far_metric a b \<and> far_metric a b = far_metric b a
   \<and> (far_metric a b = 0 \<longleftrightarrow> a = b)
   \<and> far_metric a c \<le> far_metric a b + far_metric b c"
  using DBL_MAX_pos by (auto simp: far_metric_def)

lemma far_tree_constructed:
  "VpTree_ctor nth_element_sort uni_lower () [5] far_metric = Inr far_tree"
  by (simp add: ctor_eval far_tree_def)

lemma far_tree2_constructed:
  "VpTree_ctor nth_element_sort uni_lower () [5, 6] far_metric = Inr far_tree2"
  by (simp add: ctor_eval far_tree2_def far_metric_def)

lemmas far_eval =
  getNearestNeighbors_def search_def VpTree_root_def vec_at_def in_bounds_def
  far_tree_def far_tree2_def far_metric_def admit_def pq_push_def pq_pop_def pq_top_def
  Searcher_ctor_def DBL_MAX_def Leaf_def search_loop.simps Let_def

subsection \<open>The claims about queries\<close>

text \<open>
  With the metric \<open>far_metric\<close> the item \<open>6\<close> is at distance \<open>DBL_MAX\<close> from the target \<open>5\<close>:
  it is not below the initial \<open>tau_\<close>, so the query for two neighbours over \<open>[5, 6]\<close>
  returns one result.
\<close>

theorem query_all_counterexample:
  "VpTree_ctor nth_element_sort uni_lower () [5, 6] far_metric = Inr far_tree2
   \<and> getNearestNeighbors 2 far_tree2 5 2 = Some (Inr [\<lparr>r_item = 0, index = 0, dist = 0\<rparr>])"
  by (simp add: far_tree2_constructed) (simp add: far_eval eval_nat_numeral)

text \<open>
  Claim C1, amended. On a tree constructed over \<open>n \<ge> 1\<close> items, with distances that are
  non-negative and below \<open>DBL_MAX\<close>, the query for \<open>n\<close> neighbours returns all items: the
  sequence of the \<open>dist\<close> fields is the sorted list of the distances of all items to the
  target, and the results, read as (item, original index, distance), are a permutation
  of the brute-force list.
\<close>

theorem query_all_equals_brute_force:
  assumes c: "nth_element_contract nth_element" "uniform_contract uni"
    and t: "VpTree_ctor nth_element uni seed xs metric = Inr tree"
    and ne: "xs \<noteq> []" and fuel: "length xs \<le> fuel"
    and bd: "\<forall>x\<in>set xs. \<forall>y\<in>set xs. 0 \<le> metric x y \<and> metric x y < DBL_MAX"
    and bt: "\<forall>x\<in>set xs. 0 \<le> metric x target \<and> metric x target < DBL_MAX"
  shows "\<exists>rs. getNearestNeighbors fuel tree target (int (length xs)) = Some (Inr rs)
           \<and> map dist rs = sort (map (\<lambda>x. metric x target) xs)
           \<and> mset (map (\<lambda>r. (deref tree r, index r, dist r)) rs)
               = mset (map (\<lambda>j. (xs ! j, int j, metric (xs ! j) target)) [0..<length xs])"
  by (rule query_all [OF c t ne fuel _ bd bt]) simp

theorem query_all_equals_brute_force_witness:
  "nth_element_contract (nth_element_sort :: (int \<times> int \<Rightarrow> _) \<Rightarrow> _)
   \<and> uniform_contract uni_lower
   \<and> VpTree_ctor nth_element_sort uni_lower () [5, 1, 9, 3] abs_metric = Inr example_tree
   \<and> list_all (\<lambda>x. list_all (\<lambda>y. 0 \<le> abs_metric x y \<and> abs_metric x y < DBL_MAX) [5, 1, 9, 3]
                    \<and> 0 \<le> abs_metric x 4 \<and> abs_metric x 4 < DBL_MAX) [5, 1, 9, 3]
   \<and> (\<exists>rs. getNearestNeighbors 4 example_tree 4 4 = Some (Inr rs)
           \<and> map dist rs = [1, 1, 3, 5]
           \<and> mset (map (\<lambda>r. (deref example_tree r, index r, dist r)) rs)
               = {#(5, 0, 1), (1, 1, 3), (9, 2, 5), (3, 3, 1)#})"
  using query_all_equals_brute_force
          [OF nth_element_sort_contract uni_lower_contract example_tree_constructed _ _
              example_bounds, of 4]
        nth_element_sort_contract uni_lower_contract example_tree_constructed example_bounds
  by (simp add: list_all_iff abs_metric_def upt_rec)

text \<open>
  With the metric \<open>far_metric\<close> the only item is at distance \<open>DBL_MAX\<close> from the target
  \<open>4\<close>: the query for one neighbour returns no result, where \<open>min k n\<close> is \<open>1\<close>.
\<close>

theorem query_count_counterexample:
  "VpTree_ctor nth_element_sort uni_lower () [5] far_metric = Inr far_tree
   \<and> getNearestNeighbors 1 far_tree 4 1 = Some (Inr [])"
  by (simp add: far_tree_constructed) (simp add: far_eval)

text \<open>
  Claim C2, amended. On a tree constructed over \<open>n \<ge> 1\<close> items, for a neighbour count
  \<open>k \<ge> 1\<close> and distances that are non-negative and below \<open>DBL_MAX\<close>, the query returns
  exactly \<open>min k n\<close> results whose \<open>dist\<close> fields are non-decreasing.
\<close>

theorem query_count_and_order:
  assumes c: "nth_element_contract nth_element" "uniform_contract uni"
    and t: "VpTree_ctor nth_element uni seed xs metric = Inr tree"
    and ne: "xs \<noteq> []" and fuel: "length xs \<le> fuel" and k: "1 \<le> k"
    and bd: "\<forall>x\<in>set xs. \<forall>y\<in>set xs. 0 \<le> metric x y \<and> metric x y < DBL_MAX"
    and bt: "\<forall>x\<in>set xs. 0 \<le> metric x target \<and> metric x target < DBL_MAX"
  shows "\<exists>rs. getNearestNeighbors fuel tree target k = Some (Inr rs)
           \<and> length rs = min (nat k) (length xs)
           \<and> sorted (map dist rs)"
proof -
  have "k \<noteq> 0" using k by simp
  from query_run [OF c t ne fuel this bd bt] obtain hp where
    "getNearestNeighbors fuel tree target k = Some (Inr (map (mkResult tree) hp))"
    "sorted (map h_dist hp)" "length hp = result_count k (length xs)"
    by blast
  then show ?thesis
    using k by (intro exI [of _ "map (mkResult tree) hp"]) (simp add: result_count_def comp_def)
qed

theorem query_count_and_order_witness:
  "nth_element_contract (nth_element_sort :: (int \<times> int \<Rightarrow> _) \<Rightarrow> _)
   \<and> uniform_contract uni_lower
   \<and> VpTree_ctor nth_element_sort uni_lower () [5, 1, 9, 3] abs_metric = Inr example_tree
   \<and> list_all (\<lambda>x. list_all (\<lambda>y. 0 \<le> abs_metric x y \<and> abs_metric x y < DBL_MAX) [5, 1, 9, 3]
                    \<and> 0 \<le> abs_metric x 4 \<and> abs_metric x 4 < DBL_MAX) [5, 1, 9, 3]
   \<and> (\<exists>rs. getNearestNeighbors 4 example_tree 4 2 = Some (Inr rs)
           \<and> length rs = min (nat 2) (length [5, 1, 9, 3 :: int])
           \<and> sorted (map dist rs))"
  using query_count_and_order
          [OF nth_element_sort_contract uni_lower_contract example_tree_constructed _ _ _
              example_bounds, of 4 2]
        nth_element_sort_contract uni_lower_contract example_tree_constructed example_bounds
  by (simp add: list_all_iff)

text \<open>
  Claim C6. On a tree constructed over at least one item, the query for \<open>0\<close> neighbours
  admits the root (its distance is below \<open>tau_\<close>), finds \<open>heap_.size() == neighborsCount_\<close>
  with both \<open>0\<close>, and pops the empty heap: the call ends in that pop and returns no
  sequence, so the claim does not hold of the code.
\<close>

theorem query_zero_pops_empty_heap:
  assumes c: "nth_element_contract nth_element" "uniform_contract uni"
    and t: "VpTree_ctor nth_element uni seed xs metric = Inr tree"
    and ne: "xs \<noteq> []" and fuel: "length xs \<le> fuel"
    and bt: "\<forall>x\<in>set xs. metric x target < DBL_MAX"
  shows "getNearestNeighbors fuel tree target 0 = Some (Inl PopEmptyHeap)"
proof -
  from VpTree_ctor_built [OF c t] have
    f: "frame 0 (length xs) (indexed xs) (items tree)"
    by blast
  from getNearestNeighbors_constructed [OF c t ne] fuel obtain T where
    T: "T \<noteq> Tip" and b: "built metric (items tree) 0 (length xs) T"
    and q: "getNearestNeighbors fuel tree target 0 =
              Some (case searchT metric (items tree) target 0 T Searcher_ctor of
                      Inl e \<Rightarrow> Inl e
                    | Inr s \<Rightarrow> Inr (map (mkResult tree) (heap s)))"
    by blast
  from T obtain it th l r where F: "T = Fork it th l r"
    by (cases T) auto
  have it: "it = 0"
    using b by (simp add: F)
  have "fst (items tree ! 0) \<in> set xs"
    using items_constructed(2) [OF f, of 0] ne by auto
  then have "metric (fst (items tree ! 0)) target < DBL_MAX"
    using bt by blast
  then have "admit 0 0 (metric (fst (items tree ! 0)) target) Searcher_ctor = Inl PopEmptyHeap"
    by (simp add: admit_def Searcher_ctor_def pq_pop_def)
  then have "searchT metric (items tree) target 0 T Searcher_ctor = Inl PopEmptyHeap"
    by (simp add: F it)
  then show ?thesis
    by (simp add: q)
qed

theorem query_zero_pops_empty_heap_witness:
  "nth_element_contract (nth_element_sort :: (int \<times> int \<Rightarrow> _) \<Rightarrow> _)
   \<and> uniform_contract uni_lower
   \<and> VpTree_ctor nth_element_sort uni_lower () [5, 1, 9, 3] abs_metric = Inr example_tree
   \<and> getNearestNeighbors 4 example_tree 4 0 = Some (Inl PopEmptyHeap)"
  using query_zero_pops_empty_heap
          [OF nth_element_sort_contract uni_lower_contract example_tree_constructed,
           of 4 4]
        nth_element_sort_contract uni_lower_contract example_tree_constructed example_bounds(2)
  by simp

text \<open>
  The query for \<open>- 1\<close> neighbours on the example tree is not rejected: it pushes every
  item and returns four results.
\<close>

theorem negative_count_counterexample:
  "VpTree_ctor nth_element_sort uni_lower () [5, 1, 9, 3] abs_metric = Inr example_tree
   \<and> getNearestNeighbors 4 example_tree 4 (- 1)
       = Some (Inr [\<lparr>r_item = 1, index = 3, dist = 1\<rparr>, \<lparr>r_item = 0, index = 0, dist = 1\<rparr>,
                    \<lparr>r_item = 3, index = 1, dist = 3\<rparr>, \<lparr>r_item = 2, index = 2, dist = 5\<rparr>])"
  by (simp add: example_tree_constructed) (simp add: query_eval eval_nat_numeral)

text \<open>
  Claim C7, amended. A negative neighbour count is not rejected: on a tree constructed
  over \<open>n \<ge> 1\<close> items, with distances that are non-negative and below \<open>DBL_MAX\<close>, the query
  returns normally, with all \<open>n\<close> items in ascending order of distance.
\<close>

theorem negative_count_returns_all:
  assumes c: "nth_element_contract nth_element" "uniform_contract uni"
    and t: "VpTree_ctor nth_element uni seed xs metric = Inr tree"
    and ne: "xs \<noteq> []" and fuel: "length xs \<le> fuel" and k: "k < 0"
    and bd: "\<forall>x\<in>set xs. \<forall>y\<in>set xs. 0 \<le> metric x y \<and> metric x y < DBL_MAX"
    and bt: "\<forall>x\<in>set xs. 0 \<le> metric x target \<and> metric x target < DBL_MAX"
  shows "\<exists>rs. getNearestNeighbors fuel tree target k = Some (Inr rs)
           \<and> length rs = length xs
           \<and> map dist rs = sort (map (\<lambda>x. metric x target) xs)
           \<and> mset (map (\<lambda>r. (deref tree r, index r, dist r)) rs)
               = mset (map (\<lambda>j. (xs ! j, int j, metric (xs ! j) target)) [0..<length xs])"
proof -
  from query_all [OF c t ne fuel _ bd bt, of k] k obtain rs where
    rs: "getNearestNeighbors fuel tree target k = Some (Inr rs)"
      "map dist rs = sort (map (\<lambda>x. metric x target) xs)"
      "mset (map (\<lambda>r. (deref tree r, index r, dist r)) rs)
         = mset (map (\<lambda>j. (xs ! j, int j, metric (xs ! j) target)) [0..<length xs])"
    by auto
  have "length rs = length xs"
    using arg_cong [OF rs(2), of length] by simp
  then show ?thesis
    using rs by blast
qed

theorem negative_count_returns_all_witness:
  "nth_element_contract (nth_element_sort :: (int \<times> int \<Rightarrow> _) \<Rightarrow> _)
   \<and> uniform_contract uni_lower
   \<and> VpTree_ctor nth_element_sort uni_lower () [5, 1, 9, 3] abs_metric = Inr example_tree
   \<and> list_all (\<lambda>x. list_all (\<lambda>y. 0 \<le> abs_metric x y \<and> abs_metric x y < DBL_MAX) [5, 1, 9, 3]
                    \<and> 0 \<le> abs_metric x 4 \<and> abs_metric x 4 < DBL_MAX) [5, 1, 9, 3]
   \<and> (\<exists>rs. getNearestNeighbors 4 example_tree 4 (- 3) = Some (Inr rs)
           \<and> length rs = 4
           \<and> map dist rs = [1, 1, 3, 5])"
  using negative_count_returns_all
          [OF nth_element_sort_contract uni_lower_contract example_tree_constructed _ _ _
              example_bounds, of 4 "- 3"]
        nth_element_sort_contract uni_lower_contract example_tree_constructed example_bounds
  by (auto simp: list_all_iff abs_metric_def)










end
